theory Spec2Isabelle
  imports Main "HOL-Library.Sublist"
begin

section \<open>Mini POSIX Shell: constants, memory and errors\<close>

text \<open>
  The embedding follows \<^verbatim>\<open>shell.h\<close> and \<^verbatim>\<open>shell.c\<close>. Bytes are \<^typ>\<open>char\<close>,
  a C array is a \<^typ>\<open>char list\<close> of its size, a pointer into the command buffer is
  an \<^typ>\<open>int\<close> index (the source decrements pointers below the start of the line, so
  the index may become negative).
\<close>

definition MAXLEN :: nat where
  "MAXLEN = 513"

definition MAXARG :: nat where
  "MAXARG = 256"

definition NUL :: char where
  "NUL = CHR 0x00"

text \<open>\<^verbatim>\<open>int is_space(char c)\<close>: blank and horizontal tab only.\<close>

definition is_space :: "char \<Rightarrow> bool" where
  "is_space c = (c = CHR '' '' \<or> c = CHR 0x09)"

text \<open>
  What \<^verbatim>\<open>create_args\<close> can end with besides a filled argument vector. The first two
  are the source's \<^verbatim>\<open>return 1\<close> (with the message it prints), the third its
  \<^verbatim>\<open>return -1\<close>; the fourth is the \<^verbatim>\<open>return -1\<close> of \<^verbatim>\<open>jobs_insert\<close>. The last three are accesses the C language leaves undefined: an
  access outside the object pointed into, a dereference of a null pointer, and an
  access to memory that has been freed.
\<close>

datatype error =
    ArgTooLong
  | NoWhitespaceAfter char
  | NotEnoughMemory
  | NoJobMemory
  | OutOfBounds
  | NullPointer
  | UseAfterFree

fun return_code :: "error \<Rightarrow> int option" where
  "return_code ArgTooLong = Some 1"
| "return_code (NoWhitespaceAfter c) = Some 1"
| "return_code NotEnoughMemory = Some (- 1)"
| "return_code NoJobMemory = Some (- 1)"
| "return_code OutOfBounds = None"
| "return_code NullPointer = None"
| "return_code UseAfterFree = None"

text \<open>The text the source prints on standard error before it returns.\<close>

fun message :: "error \<Rightarrow> string" where
  "message ArgTooLong = ''Argument too long!'' @ [CHR 0x0A]"
| "message (NoWhitespaceAfter c) =
     ''No whitespaces after '' @ [CHR 0x27, c, CHR 0x27] @ '' operator!'' @ [CHR 0x0A]"
| "message NotEnoughMemory = ''Not enough memory!'' @ [CHR 0x0A]"
| "message NoJobMemory = ''Could not allocate memory for job'' @ [CHR 0x0A]"
| "message OutOfBounds = []"
| "message NullPointer = []"
| "message UseAfterFree = []"

definition is_parse_error :: "error \<Rightarrow> bool" where
  "is_parse_error e = (return_code e = Some 1)"

text \<open>
  Reading and writing through a pointer into the command buffer. \<open>pre\<close> lists the bytes
  that memory holds just below the buffer, nearest first: the backward scans of
  \<^verbatim>\<open>create_args\<close> (lines 155, 188 and 195 of \<^verbatim>\<open>shell.c\<close>) have no lower bound and read
  them when they run off the start of the line. A read below these bytes or past the
  end of the buffer, and every write outside the buffer, is \<^const>\<open>OutOfBounds\<close>.
  With \<open>pre = []\<close> every access outside the buffer is an error, as in ISO C.
\<close>

definition peek :: "char list \<Rightarrow> char list \<Rightarrow> int \<Rightarrow> error + char" where
  "peek pre buf p =
     (if 0 \<le> p then
        (if nat p < length buf then Inr (buf ! nat p) else Inl OutOfBounds)
      else
        (if nat (- p - 1) < length pre then Inr (pre ! nat (- p - 1)) else Inl OutOfBounds))"

definition poke :: "char list \<Rightarrow> int \<Rightarrow> char \<Rightarrow> error + char list" where
  "poke buf p c =
     (if 0 \<le> p \<and> nat p < length buf then Inr (buf[nat p := c]) else Inl OutOfBounds)"

text \<open>\<^verbatim>\<open>while (is_space(*ptr)) { ptr++; bptr = ptr; }\<close>\<close>

function skip_fwd :: "char list \<Rightarrow> char list \<Rightarrow> int \<times> int \<Rightarrow> error + int \<times> int" where
  "skip_fwd pre buf (ptr, bptr) =
     (case peek pre buf ptr of
        Inl e \<Rightarrow> Inl e
      | Inr c \<Rightarrow> if is_space c then skip_fwd pre buf (ptr + 1, ptr + 1) else Inr (ptr, bptr))"
  by pat_completeness auto
termination
  by (relation "measure (\<lambda>(pre, buf, ptr, bptr). nat (int (length buf) - ptr))")
     (auto simp: peek_def split: if_splits)

text \<open>\<^verbatim>\<open>while (is_space(*bptr)) bptr--;\<close>\<close>

function skip_back :: "char list \<Rightarrow> char list \<Rightarrow> int \<Rightarrow> error + int" where
  "skip_back pre buf p =
     (case peek pre buf p of
        Inl e \<Rightarrow> Inl e
      | Inr c \<Rightarrow> if is_space c then skip_back pre buf (p - 1) else Inr p)"
  by pat_completeness auto
termination
  by (relation "measure (\<lambda>(pre, buf, p). nat (p + int (length pre) + 1))")
     (auto simp: peek_def split: if_splits)

declare skip_fwd.simps [simp del] skip_back.simps [simp del]

section \<open>Global variables of \<^verbatim>\<open>shell.h\<close>\<close>

text \<open>A pointer to heap memory: null, pointing to a live object, or left over after \<^verbatim>\<open>free\<close>.\<close>

datatype 'a ptr = Null | Ptr 'a | Dangling

text \<open>\<^verbatim>\<open>struct job_item\<close>; the \<^verbatim>\<open>next\<close> pointers are the order of the list.\<close>

record job_item =
  pid :: int
  name :: "char list"

record shell_state =
  argsc :: int
  args :: "char list ptr list ptr"
  redir_t :: "char list"
  redir_f :: "char list"
  run_bg :: bool
  exec_args :: bool
  exit_flag :: bool
  jobs :: "job_item list"

text \<open>
  \<^verbatim>\<open>set_exit_flag(1)\<close>, \<^verbatim>\<open>monitor_args_execute()\<close> and \<^verbatim>\<open>monitor_args_executed()\<close>:
  the assignment each makes under its mutex. They are used on the globals alone and
  on the globals extended with the positions of the threads.
\<close>

definition set_exit_flag :: "'a shell_state_scheme \<Rightarrow> 'a shell_state_scheme" where
  "set_exit_flag s = s\<lparr>exit_flag := True\<rparr>"

definition monitor_args_execute :: "'a shell_state_scheme \<Rightarrow> 'a shell_state_scheme" where
  "monitor_args_execute s = s\<lparr>exec_args := True\<rparr>"

definition monitor_args_executed :: "'a shell_state_scheme \<Rightarrow> 'a shell_state_scheme" where
  "monitor_args_executed s = s\<lparr>exec_args := False\<rparr>"

text \<open>The local variables of \<^verbatim>\<open>create_args\<close>, with the command buffer \<^verbatim>\<open>buf\<close> points to.\<close>

record locals =
  loc_buf :: "char list"
  loc_ptr :: int
  loc_bptr :: int
  loc_i :: int
  loc_j :: int

text \<open>Sequencing of steps that may fail: the first error ends the function.\<close>

definition then_do :: "error + 'a \<Rightarrow> ('a \<Rightarrow> error + 'b) \<Rightarrow> error + 'b" where
  "then_do m f = (case m of Inl e \<Rightarrow> Inl e | Inr x \<Rightarrow> f x)"

section \<open>The tokenizer \<^verbatim>\<open>create_args\<close>\<close>

subsection \<open>First pass: counting the arguments\<close>

text \<open>
  Lines 143 to 162: the token that starts at \<^verbatim>\<open>bptr\<close> and is followed by whitespace.
  A redirection is not counted; a token that starts with \<^verbatim>\<open>&\<close> cuts the line after the
  token before it, sets \<^verbatim>\<open>run_bg\<close> and takes one off \<^verbatim>\<open>argsc\<close>; any other token is
  counted.
\<close>

definition count_token :: "char list \<Rightarrow> shell_state \<times> locals \<Rightarrow> error + shell_state \<times> locals" where
  "count_token pre gl =
     (let g = fst gl; l = snd gl in
      then_do (peek pre (loc_buf l) (loc_bptr l)) (\<lambda>c.
        if c = CHR ''>'' \<or> c = CHR ''<'' then
          then_do (peek pre (loc_buf l) (loc_bptr l + 1)) (\<lambda>d.
            if is_space d then Inl (NoWhitespaceAfter c)
            else Inr (g, l\<lparr>loc_bptr := loc_bptr l + 1\<rparr>))
        else if c = CHR ''&'' then
          then_do (skip_back pre (loc_buf l) (loc_bptr l - 1)) (\<lambda>b.
            then_do (poke (loc_buf l) (b + 1) NUL) (\<lambda>buf'.
              Inr (g\<lparr>run_bg := True, argsc := argsc g - 1\<rparr>,
                   l\<lparr>loc_bptr := b + 1, loc_buf := buf'\<rparr>)))
        else Inr (g\<lparr>argsc := argsc g + 1\<rparr>, l)))"

lemma then_do_cong [fundef_cong]:
  "m = m' \<Longrightarrow> (\<And>x. m' = Inr x \<Longrightarrow> f x = f' x) \<Longrightarrow> then_do m f = then_do m' f'"
  by (auto simp: then_do_def split: sum.splits)

lemma then_do_simps [simp]:
  "then_do (Inl e) f = Inl e"
  "then_do (Inr x) f = f x"
  by (simp_all add: then_do_def)

lemma skip_fwd_result:
  "skip_fwd pre buf (p0, b0) = Inr (p, b) \<Longrightarrow>
     p0 \<le> p \<and> (\<exists>c. peek pre buf p = Inr c \<and> \<not> is_space c) \<and> (p0 < p \<longrightarrow> b = p) \<and> (p0 = p \<longrightarrow> b = b0)"
proof (induction pre buf "(p0, b0)" arbitrary: p0 b0 rule: skip_fwd.induct)
  case (1 pre buf ptr bptr)
  from "1.prems" obtain c where c: "peek pre buf ptr = Inr c"
    by (auto simp: skip_fwd.simps [of pre buf ptr bptr] split: sum.splits)
  show ?case
  proof (cases "is_space c")
    case True
    with c "1.prems" have "skip_fwd pre buf (ptr + 1, ptr + 1) = Inr (p, b)"
      by (simp add: skip_fwd.simps [of pre buf ptr bptr])
    from "1.hyps" [OF c True this] show ?thesis by auto
  next
    case False
    with c "1.prems" show ?thesis
      by (simp add: skip_fwd.simps [of pre buf ptr bptr])
  qed
qed

lemma count_token_result:
  "count_token pre (g, l) = Inr (g1, l1) \<Longrightarrow>
     loc_ptr l1 = loc_ptr l \<and> length (loc_buf l1) = length (loc_buf l)"
  by (auto simp: count_token_def Let_def then_do_def poke_def split: sum.splits if_splits)

text \<open>The loop of lines 136 to 175.\<close>

function count_loop :: "char list \<Rightarrow> shell_state \<times> locals \<Rightarrow> error + shell_state \<times> locals" where
  "count_loop pre (g, l) =
     then_do (peek pre (loc_buf l) (loc_ptr l)) (\<lambda>c.
       if c = NUL then Inr (g, l)
       else if is_space c then
         (if int MAXARG \<le> loc_i l then Inl ArgTooLong
          else
            then_do (count_token pre (g, l)) (\<lambda>(g1, l1).
              then_do (skip_fwd pre (loc_buf l1) (loc_ptr l1, loc_ptr l1 + 1)) (\<lambda>(p, b).
                count_loop pre (g1, l1\<lparr>loc_i := - 1 + 1, loc_bptr := b, loc_ptr := p - 1 + 1\<rparr>))))
       else count_loop pre (g, l\<lparr>loc_ptr := loc_ptr l + 1, loc_i := loc_i l + 1\<rparr>))"
  by pat_completeness auto
termination
proof (relation "measures [\<lambda>(pre, g, l). nat (int (length (loc_buf l)) - loc_ptr l),
                           \<lambda>(pre, g, l). (case peek pre (loc_buf l) (loc_ptr l) of
                                             Inr c \<Rightarrow> if is_space c then 1 else 0 | Inl e \<Rightarrow> 0)]",
       goal_cases)
  case 1
  show ?case by simp
next
  case (2 pre g l c x g1 l1 y p b)
  from 2 have tok: "count_token pre (g, l) = Inr (g1, l1)" by simp
  from 2 have skp: "skip_fwd pre (loc_buf l1) (loc_ptr l1, loc_ptr l1 + 1) = Inr (p, b)" by simp
  note r1 = count_token_result [OF tok]
  note r2 = skip_fwd_result [OF skp]
  from 2 have inb: "loc_ptr l < int (length (loc_buf l))"
    by (auto simp: peek_def split: if_splits)
  show ?case
  proof (cases "loc_ptr l < p")
    case True
    with r1 r2 inb show ?thesis
      by (auto simp: peek_def split: if_splits)
  next
    case False
    with r1 r2 have "p = loc_ptr l" by simp
    with r1 r2 2 show ?thesis by auto
  qed
next
  case (3 pre g l c)
  then show ?case by (auto simp: peek_def split: if_splits)
qed

declare count_loop.simps [simp del]

text \<open>
  Lines 176 to 202, after the loop: the length check of the last token, the last token
  as a redirection or as \<^verbatim>\<open>&\<close> (both only when \<^verbatim>\<open>argsc > 1\<close>; \<^verbatim>\<open>*bptr\<close> is read only
  then, as \<^verbatim>\<open>&&\<close> does), otherwise the removal of trailing whitespace, and the count of
  the terminating null member.
\<close>

definition count_finish :: "char list \<Rightarrow> shell_state \<times> locals \<Rightarrow> error + shell_state \<times> locals" where
  "count_finish pre gl =
     (let g = fst gl; l = snd gl in
      if int MAXARG \<le> loc_i l then Inl ArgTooLong
      else
        then_do (if 1 < argsc g
                 then then_do (peek pre (loc_buf l) (loc_bptr l))
                        (\<lambda>c. Inr (if c = CHR ''>'' \<or> c = CHR ''<''
                                   then g\<lparr>argsc := argsc g - 1\<rparr> else g))
                 else Inr g) (\<lambda>g1.
        then_do (if 1 < argsc g1
                 then then_do (peek pre (loc_buf l) (loc_bptr l)) (\<lambda>c. Inr (c = CHR ''&''))
                 else Inr False) (\<lambda>amp.
        then_do (if amp then
                   then_do (skip_back pre (loc_buf l) (loc_bptr l - 1)) (\<lambda>b.
                     then_do (poke (loc_buf l) (b + 1) NUL) (\<lambda>buf'.
                       Inr (g1\<lparr>run_bg := True, argsc := argsc g1 - 1\<rparr>,
                            l\<lparr>loc_bptr := b + 1, loc_buf := buf'\<rparr>)))
                 else
                   then_do (skip_back pre (loc_buf l) (loc_ptr l - 1)) (\<lambda>p.
                     then_do (poke (loc_buf l) (p + 1) NUL) (\<lambda>buf'.
                       Inr (g1, l\<lparr>loc_ptr := p + 1, loc_buf := buf'\<rparr>)))) (\<lambda>(g2, l2).
        Inr (g2\<lparr>argsc := argsc g2 + 1\<rparr>, l2)))))"

subsection \<open>Allocation of the argument vector\<close>

text \<open>
  Lines 205 to 217. \<open>avail\<close> is the number of allocations the allocator still grants:
  one for the vector of \<^verbatim>\<open>argsc\<close> pointers, one for each of its first \<^verbatim>\<open>argsc - 1\<close>
  members. \<^verbatim>\<open>calloc\<close> zeroes what it returns. A negative \<^verbatim>\<open>argsc\<close> is converted to a
  size no allocator grants; for \<^verbatim>\<open>calloc(0, ...)\<close> the empty object is returned.
\<close>

definition alloc_args :: "nat \<Rightarrow> shell_state \<Rightarrow> error + shell_state" where
  "alloc_args avail g =
     (if argsc g < 0 \<or> avail < 1 then Inl NotEnoughMemory
      else if avail - 1 < nat (argsc g - 1) then Inl NotEnoughMemory
      else Inr (g\<lparr>args := Ptr (fold (\<lambda>k a. a[k := Ptr (replicate MAXARG NUL)])
                                   [0 ..< nat (argsc g - 1)]
                                   (replicate (nat (argsc g)) Null))\<rparr>))"

subsection \<open>Second pass: filling the arguments\<close>

text \<open>\<^verbatim>\<open>memcpy(dst, src + p, n)\<close> from the command buffer into an array \<open>dst\<close>.\<close>

definition memcpy_from :: "char list \<Rightarrow> int \<Rightarrow> int \<Rightarrow> char list \<Rightarrow> error + char list" where
  "memcpy_from src p n dst =
     (if 0 \<le> p \<and> 0 \<le> n \<and> nat p + nat n \<le> length src \<and> nat n \<le> length dst
      then Inr (take (nat n) (drop (nat p) src) @ drop (nat n) dst)
      else Inl OutOfBounds)"

text \<open>\<^verbatim>\<open>memcpy(args[i], bptr, j)\<close> and \<^verbatim>\<open>args[i] = NULL\<close>.\<close>

definition copy_arg :: "shell_state \<Rightarrow> int \<Rightarrow> char list \<Rightarrow> int \<Rightarrow> int \<Rightarrow> error + shell_state" where
  "copy_arg g k src p n =
     (case args g of
        Null \<Rightarrow> Inl NullPointer
      | Dangling \<Rightarrow> Inl UseAfterFree
      | Ptr a \<Rightarrow>
          if 0 \<le> k \<and> nat k < length a then
            (case a ! nat k of
               Null \<Rightarrow> Inl NullPointer
             | Dangling \<Rightarrow> Inl UseAfterFree
             | Ptr blk \<Rightarrow>
                 then_do (memcpy_from src p n blk)
                   (\<lambda>blk'. Inr (g\<lparr>args := Ptr (a[nat k := Ptr blk'])\<rparr>)))
          else Inl OutOfBounds)"

definition null_arg :: "shell_state \<Rightarrow> int \<Rightarrow> error + shell_state" where
  "null_arg g k =
     (case args g of
        Null \<Rightarrow> Inl NullPointer
      | Dangling \<Rightarrow> Inl UseAfterFree
      | Ptr a \<Rightarrow>
          if 0 \<le> k \<and> nat k < length a then Inr (g\<lparr>args := Ptr (a[nat k := Null])\<rparr>)
          else Inl OutOfBounds)"

text \<open>
  \<^verbatim>\<open>bptr++; memcpy(redir, bptr, j); redir[j-1] = '\0';\<close> on one of the two redirection
  arrays: the \<open>j\<close> bytes after the operator are copied and the last of them is
  overwritten with the terminator.
\<close>

definition copy_redir :: "char list \<Rightarrow> int \<Rightarrow> int \<Rightarrow> char list \<Rightarrow> error + char list" where
  "copy_redir src p n redir =
     then_do (memcpy_from src (p + 1) n redir) (\<lambda>r. poke r (n - 1) NUL)"

text \<open>Lines 228 to 239: the token that starts at \<^verbatim>\<open>bptr\<close> and is followed by whitespace.\<close>

definition fill_token :: "char list \<Rightarrow> shell_state \<times> locals \<Rightarrow> error + shell_state \<times> locals" where
  "fill_token pre gl =
     (let g = fst gl; l = snd gl in
      then_do (peek pre (loc_buf l) (loc_bptr l)) (\<lambda>c.
        if c = CHR ''>'' then
          then_do (copy_redir (loc_buf l) (loc_bptr l) (loc_j l) (redir_t g))
            (\<lambda>r. Inr (g\<lparr>redir_t := r\<rparr>, l\<lparr>loc_bptr := loc_bptr l + 1\<rparr>))
        else if c = CHR ''<'' then
          then_do (copy_redir (loc_buf l) (loc_bptr l) (loc_j l) (redir_f g))
            (\<lambda>r. Inr (g\<lparr>redir_f := r\<rparr>, l\<lparr>loc_bptr := loc_bptr l + 1\<rparr>))
        else
          then_do (copy_arg g (loc_i l) (loc_buf l) (loc_bptr l) (loc_j l))
            (\<lambda>g'. Inr (g', l\<lparr>loc_i := loc_i l + 1\<rparr>))))"

lemma fill_token_result:
  "fill_token pre (g, l) = Inr (g1, l1) \<Longrightarrow> loc_ptr l1 = loc_ptr l \<and> loc_buf l1 = loc_buf l"
  by (auto simp: fill_token_def Let_def then_do_def split: sum.splits if_splits)

text \<open>The loop of lines 226 to 252.\<close>

function fill_loop :: "char list \<Rightarrow> shell_state \<times> locals \<Rightarrow> error + shell_state \<times> locals" where
  "fill_loop pre (g, l) =
     then_do (peek pre (loc_buf l) (loc_ptr l)) (\<lambda>c.
       if c = NUL then Inr (g, l)
       else if is_space c then
         then_do (fill_token pre (g, l)) (\<lambda>(g1, l1).
           then_do (skip_fwd pre (loc_buf l1) (loc_ptr l1, loc_ptr l1 + 1)) (\<lambda>(p, b).
             fill_loop pre (g1, l1\<lparr>loc_j := - 1 + 1, loc_bptr := b, loc_ptr := p - 1 + 1\<rparr>)))
       else fill_loop pre (g, l\<lparr>loc_ptr := loc_ptr l + 1, loc_j := loc_j l + 1\<rparr>))"
  by pat_completeness auto
termination
proof (relation "measure (\<lambda>(pre, g, l). nat (int (length (loc_buf l)) - loc_ptr l))", goal_cases)
  case 1
  show ?case by simp
next
  case (2 pre g l c x g1 l1 y p b)
  from 2 have tok: "fill_token pre (g, l) = Inr (g1, l1)" by simp
  from 2 have skp: "skip_fwd pre (loc_buf l1) (loc_ptr l1, loc_ptr l1 + 1) = Inr (p, b)" by simp
  note r1 = fill_token_result [OF tok]
  note r2 = skip_fwd_result [OF skp]
  from 2 have inb: "loc_ptr l < int (length (loc_buf l))"
    by (auto simp: peek_def split: if_splits)
  from 2 r1 have "peek pre (loc_buf l1) (loc_ptr l1) = Inr c" by simp
  with r2 \<open>is_space c\<close> have "loc_ptr l1 \<noteq> p" by auto
  with r1 r2 inb show ?case
    by (auto simp: peek_def split: if_splits)
next
  case (3 pre g l c)
  then show ?case by (auto simp: peek_def split: if_splits)
qed

declare fill_loop.simps [simp del]

text \<open>Lines 253 to 267: the last token.\<close>

definition fill_finish :: "char list \<Rightarrow> shell_state \<times> locals \<Rightarrow> error + shell_state \<times> locals" where
  "fill_finish pre gl =
     (let g = fst gl; l = snd gl in
      then_do (peek pre (loc_buf l) (loc_bptr l)) (\<lambda>c.
        if c = CHR ''>'' then
          then_do (copy_redir (loc_buf l) (loc_bptr l) (loc_j l) (redir_t g)) (\<lambda>r.
            then_do (null_arg (g\<lparr>redir_t := r\<rparr>) (loc_i l))
              (\<lambda>g'. Inr (g', l\<lparr>loc_bptr := loc_bptr l + 1\<rparr>)))
        else if c = CHR ''<'' then
          then_do (copy_redir (loc_buf l) (loc_bptr l) (loc_j l) (redir_f g)) (\<lambda>r.
            then_do (null_arg (g\<lparr>redir_f := r\<rparr>) (loc_i l))
              (\<lambda>g'. Inr (g', l\<lparr>loc_bptr := loc_bptr l + 1\<rparr>)))
        else
          then_do (copy_arg g (loc_i l) (loc_buf l) (loc_bptr l) (loc_j l)) (\<lambda>g'.
            then_do (null_arg g' (loc_i l + 1)) (\<lambda>g''. Inr (g'', l)))))"

subsection \<open>The whole function\<close>

text \<open>
  \<^verbatim>\<open>int create_args(char *buf)\<close>: \<open>Inr\<close> is \<^verbatim>\<open>return 0\<close> with the globals as the function
  leaves them. \<open>buf\<close> is the whole array the caller passes, the line with its terminator
  and whatever follows it.
\<close>

definition create_args :: "nat \<Rightarrow> char list \<Rightarrow> char list \<Rightarrow> shell_state \<Rightarrow> error + shell_state" where
  "create_args avail pre buf g =
     then_do (skip_fwd pre buf (0, 0)) (\<lambda>(p, b).
     then_do (count_loop pre (g\<lparr>run_bg := False, argsc := 1\<rparr>,
                \<lparr>loc_buf = buf, loc_ptr = p, loc_bptr = b, loc_i = 0, loc_j = 0\<rparr>)) (\<lambda>gl1.
     then_do (count_finish pre gl1) (\<lambda>(g2, l2).
     then_do (alloc_args avail g2) (\<lambda>g3.
     then_do (skip_fwd pre (loc_buf l2) (0, 0)) (\<lambda>(p', b').
     then_do (fill_loop pre (g3, l2\<lparr>loc_ptr := p', loc_bptr := b', loc_i := 0, loc_j := 0\<rparr>)) (\<lambda>gl4.
     then_do (fill_finish pre gl4) (\<lambda>(g5, l5). Inr g5)))))))"

section \<open>Reading the globals as a command\<close>

text \<open>The C string an array holds: the bytes before the first terminator.\<close>

definition cstr :: "char list \<Rightarrow> string" where
  "cstr a = takeWhile (\<lambda>c. c \<noteq> NUL) a"

text \<open>
  The argument vector as \<^verbatim>\<open>execvp(args[0], args)\<close> reads it: the strings before the first
  null member. There is none when the vector has no null member or holds a freed
  pointer before it.
\<close>

fun argv_strings :: "char list ptr list \<Rightarrow> string list option" where
  "argv_strings [] = None"
| "argv_strings (Null # a) = Some []"
| "argv_strings (Ptr blk # a) = map_option ((#) (cstr blk)) (argv_strings a)"
| "argv_strings (Dangling # a) = None"

text \<open>
  The command \<^verbatim>\<open>execute_file\<close> runs: a redirection is in force when the first byte of
  its array is not the terminator (lines 478 and 483).
\<close>

record command =
  arguments :: "string list"
  input_redirect :: "string option"
  output_redirect :: "string option"
  background :: bool

definition redirect :: "char list \<Rightarrow> string option" where
  "redirect a = (if cstr a = [] then None else Some (cstr a))"

definition command_of :: "shell_state \<Rightarrow> command option" where
  "command_of g =
     (case args g of
        Ptr a \<Rightarrow>
          map_option (\<lambda>ws. \<lparr>arguments = ws, input_redirect = redirect (redir_f g),
                            output_redirect = redirect (redir_t g), background = run_bg g\<rparr>)
            (argv_strings a)
      | Null \<Rightarrow> None
      | Dangling \<Rightarrow> None)"

text \<open>The globals as C initialises them, and as \<^verbatim>\<open>jobs_init\<close> leaves the job list.\<close>

definition shell_init :: shell_state where
  "shell_init =
     \<lparr>argsc = 0, args = Null, redir_t = replicate MAXARG NUL, redir_f = replicate MAXARG NUL,
      run_bg = False, exec_args = False, exit_flag = False, jobs = []\<rparr>"

text \<open>
  What \<^verbatim>\<open>create_args\<close> relies on at its entry: the two redirection arrays have their
  size, and \<^verbatim>\<open>clear_args\<close> (or the initialisation) has emptied them.
\<close>

definition redirs_cleared :: "shell_state \<Rightarrow> bool" where
  "redirs_cleared g =
     (length (redir_t g) = MAXARG \<and> length (redir_f g) = MAXARG \<and>
      redir_t g ! 0 = NUL \<and> redir_f g ! 0 = NUL)"

text \<open>\<^verbatim>\<open>void clear_args(void)\<close>: frees the \<^verbatim>\<open>argsc\<close> members and the vector.\<close>

definition clear_args :: "shell_state \<Rightarrow> error + shell_state" where
  "clear_args g =
     (case args g of
        Null \<Rightarrow> if 0 < argsc g then Inl NullPointer
                else Inr (g\<lparr>redir_t := (redir_t g)[0 := NUL], redir_f := (redir_f g)[0 := NUL]\<rparr>)
      | Dangling \<Rightarrow> Inl UseAfterFree
      | Ptr a \<Rightarrow>
          if argsc g \<le> int (length a) then
            (if Dangling \<in> set (take (nat (argsc g)) a) then Inl UseAfterFree
             else Inr (g\<lparr>args := Dangling,
                        redir_t := (redir_t g)[0 := NUL], redir_f := (redir_f g)[0 := NUL]\<rparr>))
          else Inl OutOfBounds)"

text \<open>\<^verbatim>\<open>args[k]\<close> read as a C string, as \<^verbatim>\<open>strcmp\<close>, \<^verbatim>\<open>strlen\<close>, \<^verbatim>\<open>strcpy\<close> and \<^verbatim>\<open>chdir\<close> do.\<close>

definition arg_string :: "shell_state \<Rightarrow> nat \<Rightarrow> error + string" where
  "arg_string g k =
     (case args g of
        Null \<Rightarrow> Inl NullPointer
      | Dangling \<Rightarrow> Inl UseAfterFree
      | Ptr a \<Rightarrow>
          if k < length a then
            (case a ! k of
               Null \<Rightarrow> Inl NullPointer
             | Dangling \<Rightarrow> Inl UseAfterFree
             | Ptr blk \<Rightarrow> if NUL \<in> set blk then Inr (cstr blk) else Inl OutOfBounds)
          else Inl OutOfBounds)"

section \<open>Formatted output\<close>

text \<open>The conversion \<^verbatim>\<open>%d\<close> of \<^verbatim>\<open>printf\<close>.\<close>

definition digit :: "nat \<Rightarrow> char" where
  "digit n = ''0123456789'' ! n"

fun show_nat :: "nat \<Rightarrow> string" where
  "show_nat n = (if n < 10 then [digit n] else show_nat (n div 10) @ [digit (n mod 10)])"

declare show_nat.simps [simp del]

definition show_int :: "int \<Rightarrow> string" where
  "show_int k = (if k < 0 then CHR ''-'' # show_nat (nat (- k)) else show_nat (nat k))"

text \<open>Reading a decimal numeral back, the inverse of \<^const>\<open>show_nat\<close>.\<close>

definition digit_val :: "char \<Rightarrow> nat" where
  "digit_val c = length (takeWhile (\<lambda>d. d \<noteq> c) ''0123456789'')"

definition read_nat :: "string \<Rightarrow> nat" where
  "read_nat s = foldl (\<lambda>a c. 10 * a + digit_val c) 0 s"

definition newline :: string where
  "newline = [CHR 0x0A]"

section \<open>The job list\<close>

text \<open>
  \<^verbatim>\<open>int jobs_insert(struct job_list *list, char *name, int pid)\<close>: the new item becomes
  the first of the list. \<^verbatim>\<open>strcpy\<close> writes the name and its terminator into
  \<^verbatim>\<open>char name[MAXARG]\<close>.
\<close>

definition jobs_insert :: "nat \<Rightarrow> job_item list \<Rightarrow> string \<Rightarrow> int \<Rightarrow> error + job_item list" where
  "jobs_insert avail list nm p =
     (if avail < 1 then Inl NoJobMemory
      else if MAXARG \<le> length nm then Inl OutOfBounds
      else Inr (\<lparr>pid = p, name = nm\<rparr> # list))"

text \<open>
  \<^verbatim>\<open>int jobs_find_remove(struct job_list *list, int pid)\<close>: the first item with the pid
  is unlinked and freed; the result is the source's 1 or 0, with the list it leaves.
\<close>

fun jobs_find_remove :: "job_item list \<Rightarrow> int \<Rightarrow> bool \<times> job_item list" where
  "jobs_find_remove [] p = (False, [])"
| "jobs_find_remove (it # rest) p =
     (if pid it = p then (True, rest)
      else (case jobs_find_remove rest p of (found, rest') \<Rightarrow> (found, it # rest')))"

text \<open>\<^verbatim>\<open>void jobs_print(struct job_list *list)\<close>: one \<^verbatim>\<open>printf("[%d] %s\n", ...)\<close> for each item.\<close>

definition job_line :: "job_item \<Rightarrow> string" where
  "job_line it = ''['' @ show_int (pid it) @ ''] '' @ name it @ newline"

definition jobs_print :: "job_item list \<Rightarrow> string list" where
  "jobs_print list = map job_line list"

section \<open>Child processes and their status\<close>

text \<open>
  The status \<^verbatim>\<open>waitpid\<close> stores, as the macros of \<^verbatim>\<open><sys/wait.h>\<close> classify it: exited
  with a code, killed by a signal, stopped by a signal, or none of these.
\<close>

datatype wstatus = Exited nat | Signaled nat | Stopped nat | Continued

fun WIFEXITED :: "wstatus \<Rightarrow> bool" where
  "WIFEXITED (Exited c) = True"
| "WIFEXITED (Signaled n) = False"
| "WIFEXITED (Stopped n) = False"
| "WIFEXITED Continued = False"

fun WEXITSTATUS :: "wstatus \<Rightarrow> int" where
  "WEXITSTATUS (Exited c) = int c"
| "WEXITSTATUS (Signaled n) = 0"
| "WEXITSTATUS (Stopped n) = 0"
| "WEXITSTATUS Continued = 0"

fun WIFSIGNALED :: "wstatus \<Rightarrow> bool" where
  "WIFSIGNALED (Exited c) = False"
| "WIFSIGNALED (Signaled n) = True"
| "WIFSIGNALED (Stopped n) = False"
| "WIFSIGNALED Continued = False"

fun WIFSTOPPED :: "wstatus \<Rightarrow> bool" where
  "WIFSTOPPED (Exited c) = False"
| "WIFSTOPPED (Signaled n) = False"
| "WIFSTOPPED (Stopped n) = True"
| "WIFSTOPPED Continued = False"

datatype errno = ENOENT | ENOTDIR | ECHILD | EACCES | EINTR | EIO | ELOOP | ENAMETOOLONG | ENOMEM

text \<open>
  What a call of \<^verbatim>\<open>waitpid\<close> returns: \<^verbatim>\<open>-1\<close> with \<^verbatim>\<open>errno\<close>, \<^verbatim>\<open>0\<close> (under \<^verbatim>\<open>WNOHANG\<close>, no
  child has changed state), or the pid of a child with its status.
\<close>

datatype wait_result = WaitFailed errno | WaitNone | WaitChild int wstatus

text \<open>
  The children of the shell as the kernel holds them: the pid of every child that has
  not been waited for, with the change of state it has to report, if there is one.
\<close>

type_synonym children = "(int \<times> wstatus option) list"

datatype wait_option = WNOHANG | WUNTRACED | WCONTINUED

text \<open>
  \<^verbatim>\<open>waitpid(pid, &status, options)\<close> as POSIX specifies it. The pid \<^verbatim>\<open>-1\<close> stands for any
  child. The end of a child is always reported, a stop only under \<^verbatim>\<open>WUNTRACED\<close>, a
  continuation only under \<^verbatim>\<open>WCONTINUED\<close>. The child whose end is reported is gone; a stop
  or continuation is reported once. With no child to wait for the call fails with
  \<^verbatim>\<open>ECHILD\<close>; with nothing to report it returns 0 under \<^verbatim>\<open>WNOHANG\<close> and otherwise does not
  return, which is the value \<open>None\<close>. Of several children with something to report the
  first of the table is taken.
\<close>

fun reported :: "wait_option list \<Rightarrow> wstatus \<Rightarrow> bool" where
  "reported opts (Exited c) = True"
| "reported opts (Signaled n) = True"
| "reported opts (Stopped n) = (WUNTRACED \<in> set opts)"
| "reported opts Continued = (WCONTINUED \<in> set opts)"

definition awaited :: "int \<Rightarrow> int \<times> wstatus option \<Rightarrow> bool" where
  "awaited p c = (p = - 1 \<or> p = fst c)"

fun take_report ::
  "int \<Rightarrow> wait_option list \<Rightarrow> children \<Rightarrow> ((int \<times> wstatus) \<times> children) option" where
  "take_report p opts [] = None"
| "take_report p opts ((q, s) # cs) =
     (let later = map_option (\<lambda>(r, cs'). (r, (q, s) # cs')) (take_report p opts cs) in
      case s of
        None \<Rightarrow> later
      | Some st \<Rightarrow>
          if awaited p (q, s) \<and> reported opts st
          then Some ((q, st), if WIFEXITED st \<or> WIFSIGNALED st then cs else (q, None) # cs)
          else later)"

definition waitpid ::
  "int \<Rightarrow> wait_option list \<Rightarrow> children \<Rightarrow> (wait_result \<times> children) option" where
  "waitpid p opts cs =
     (if filter (awaited p) cs = [] then Some (WaitFailed ECHILD, cs)
      else case take_report p opts cs of
             Some ((q, st), cs') \<Rightarrow> Some (WaitChild q st, cs')
           | None \<Rightarrow> if WNOHANG \<in> set opts then Some (WaitNone, cs) else None)"

text \<open>\<^verbatim>\<open>void print_status(int w, int status)\<close>: the text it prints.\<close>

definition print_status :: "int \<Rightarrow> wstatus \<Rightarrow> string" where
  "print_status w status =
     (if WIFEXITED status then
        (if WEXITSTATUS status \<noteq> 0 then
           newline @ ''['' @ show_int w @ '']+ Exit '' @ show_int (WEXITSTATUS status) @ newline
         else newline @ ''['' @ show_int w @ '']+ Done'' @ newline)
      else if WIFSIGNALED status then newline @ ''['' @ show_int w @ '']+ Killed'' @ newline
      else if WIFSTOPPED status then newline @ ''['' @ show_int w @ '']+ Stopped'' @ newline
      else newline @ ''['' @ show_int w @ '']+ Terminated'' @ newline)"

text \<open>
  \<^verbatim>\<open>int execute_file(void)\<close> in the shell process, after \<^verbatim>\<open>fork\<close> has returned the pid
  \<open>cpid\<close> of the child (lines 507 to 529): the value returned, the text written to
  standard output, and the globals. \<open>wr\<close> is what \<^verbatim>\<open>waitpid(cpid, &status, 0)\<close> returns
  when the command runs in the foreground.
\<close>

definition execute_file_parent ::
  "nat \<Rightarrow> shell_state \<Rightarrow> int \<Rightarrow> wait_result \<Rightarrow> error + int \<times> string \<times> shell_state" where
  "execute_file_parent avail g cpid wr =
     (if run_bg g then
        then_do (arg_string g 0) (\<lambda>nm.
          case jobs_insert avail (jobs g) nm cpid of
            Inl e \<Rightarrow> if e = NoJobMemory then Inr (- 1, [], g) else Inl e
          | Inr js \<Rightarrow> Inr (0, ''['' @ show_int cpid @ ''] '' @ nm @ newline, g\<lparr>jobs := js\<rparr>))
      else
        (case wr of
           WaitFailed e \<Rightarrow> if e \<noteq> ECHILD then Inr (- 1, [], g) else Inr (0, [], g)
         | WaitNone \<Rightarrow> Inr (0, [], g)
         | WaitChild w status \<Rightarrow>
             if 0 < w then (if WIFSIGNALED status then Inr (0, newline, g) else Inr (0, [], g))
             else Inr (0, [], g)))"

text \<open>
  The same with the call of line 518, \<^verbatim>\<open>waitpid(cpid, &status, 0)\<close>, on the children the
  kernel holds; a command in the background is not waited for.
\<close>

definition execute_file_wait ::
  "nat \<Rightarrow> shell_state \<Rightarrow> int \<Rightarrow> children \<Rightarrow> ((error + int \<times> string \<times> shell_state) \<times> children) option" where
  "execute_file_wait avail g cpid cs =
     (if run_bg g then Some (execute_file_parent avail g cpid WaitNone, cs)
      else map_option (\<lambda>(wr, cs'). (execute_file_parent avail g cpid wr, cs'))
             (waitpid cpid [] cs))"

text \<open>
  The case \<^verbatim>\<open>SIGCHLD\<close> of \<^verbatim>\<open>sig_handler\<close> (lines 604 to 616): \<open>wr\<close> is what
  \<^verbatim>\<open>waitpid(-1, &status, WNOHANG)\<close> returns. The result is the text written to standard
  output and the globals.
\<close>

definition sig_handler_SIGCHLD :: "shell_state \<Rightarrow> wait_result \<Rightarrow> string \<times> shell_state" where
  "sig_handler_SIGCHLD g wr =
     (case wr of
        WaitFailed e \<Rightarrow> ([], g)
      | WaitNone \<Rightarrow> ([], g)
      | WaitChild w status \<Rightarrow>
          if 0 < w then
            (case jobs_find_remove (jobs g) w of
               (found, js) \<Rightarrow>
                 if found then
                   (print_status w status @ (if \<not> exec_args g then ''$ '' else []),
                    g\<lparr>jobs := js\<rparr>)
                 else ([], g\<lparr>jobs := js\<rparr>))
          else ([], g))"

text \<open>
  The same with the call of line 605, \<^verbatim>\<open>waitpid(-1, &status, WNOHANG)\<close>, on the children
  the kernel holds.
\<close>

definition sig_handler_reap ::
  "shell_state \<Rightarrow> children \<Rightarrow> ((string \<times> shell_state) \<times> children) option" where
  "sig_handler_reap g cs =
     map_option (\<lambda>(wr, cs'). (sig_handler_SIGCHLD g wr, cs')) (waitpid (- 1) [WNOHANG] cs)"

section \<open>The built-in commands of the input thread\<close>

text \<open>
  \<^verbatim>\<open>int change_cwd(void)\<close>. \<open>chdir\<close> stands for the system call: from the working directory
  and the path it gives the new working directory or \<^verbatim>\<open>errno\<close>; a failed call leaves
  the working directory as it was. The result is the value returned, the text written
  to standard error, and the working directory.
\<close>

definition change_cwd ::
  "(string \<Rightarrow> string \<Rightarrow> errno + string) \<Rightarrow> shell_state \<Rightarrow> string \<Rightarrow> error + int \<times> string \<times> string" where
  "change_cwd chdir g cwd =
     (let argc = argsc g - 1 in
      if argc \<noteq> 2 then Inr (1, ''cd: one argument required'' @ newline, cwd)
      else
        then_do (arg_string g 1) (\<lambda>path.
          case chdir cwd path of
            Inr cwd' \<Rightarrow> Inr (0, [], cwd')
          | Inl e \<Rightarrow>
              if e = ENOENT \<or> e = ENOTDIR
              then Inr (1, ''cd: '' @ path @ '': No such directory'' @ newline, cwd)
              else Inr (- 1, [], cwd)))"

text \<open>
  What one round of the loop of \<^verbatim>\<open>input_start\<close> leaves: whether the thread goes on to
  read the next line, the text written to standard output, the globals.
\<close>

record round =
  goes_on :: bool
  stdout :: string
  globals :: shell_state

text \<open>
  Lines 377 to 387: the value of \<^verbatim>\<open>change_cwd()\<close> decides. \<^verbatim>\<open>-1\<close> sets the exit flag,
  wakes the exec thread and ends the input thread; any other value prints the prompt and reads on.
\<close>

definition after_change_cwd :: "int \<Rightarrow> shell_state \<Rightarrow> round" where
  "after_change_cwd rv g =
     (if rv = - 1
      then \<lparr>goes_on = False, stdout = [], globals = monitor_args_execute (set_exit_flag g)\<rparr>
      else \<lparr>goes_on = True, stdout = ''$ '', globals = g\<rparr>)"

text \<open>
  Lines 375 to 388, the branch \<^verbatim>\<open>strcmp(args[0], "cd") == 0\<close>: \<^verbatim>\<open>clear_args()\<close> runs
  before \<^verbatim>\<open>change_cwd()\<close>. The result adds the text on standard error and the working
  directory.
\<close>

definition input_cd ::
  "(string \<Rightarrow> string \<Rightarrow> errno + string) \<Rightarrow> shell_state \<Rightarrow> string \<Rightarrow> error + round \<times> string \<times> string" where
  "input_cd chdir g cwd =
     then_do (clear_args g) (\<lambda>g1.
       then_do (change_cwd chdir g1 cwd) (\<lambda>(rv, err, cwd').
         Inr (after_change_cwd rv g1, err, cwd')))"

text \<open>Lines 361 to 397: the branch the first argument selects.\<close>

datatype branch = BuiltinExit | BuiltinJobs | BuiltinCd | EmptyLine | Execute

definition input_branch :: "shell_state \<Rightarrow> error + branch" where
  "input_branch g =
     then_do (arg_string g 0) (\<lambda>a0.
       Inr (if a0 = ''exit'' then BuiltinExit
            else if a0 = ''jobs'' then BuiltinJobs
            else if a0 = ''cd'' then BuiltinCd
            else if length a0 = 0 then EmptyLine
            else Execute))"

text \<open>Lines 389 to 394, the branch \<^verbatim>\<open>strlen(args[0]) == 0\<close>.\<close>

definition input_empty :: "shell_state \<Rightarrow> error + round" where
  "input_empty g =
     then_do (clear_args g) (\<lambda>g1.
       Inr \<lparr>goes_on = True, stdout = [CHR 0x0D] @ ''$ '', globals = g1\<rparr>)"

section \<open>The monitor of the input and exec threads\<close>

text \<open>
  The two threads as an interleaving of steps. A step is one critical section of the
  monitor (\<^verbatim>\<open>monitor_args_execute\<close>, \<^verbatim>\<open>monitor_args_wait_finished\<close>,
  \<^verbatim>\<open>monitor_args_wait_executable\<close>, \<^verbatim>\<open>monitor_args_executed\<close>, each under \<^verbatim>\<open>mtx\<close>), one
  access to the exit flag (under \<^verbatim>\<open>mtx_exit\<close>), or the work of one thread between two
  of these. A thread inside \<^verbatim>\<open>pthread_cond_wait\<close> has no step until the condition of
  its \<^verbatim>\<open>while\<close> loop lets it through. The position of each thread is part of the state.
\<close>

datatype line_pc =
  LRead | LPublish | LWaitFinished | LClear | LCheckExit | LSetExit | LWakeExec | LReturned

datatype exec_pc =
  EWaitExecutable | ECheckExit | EExecute | EExecuted | EFailSetExit | EFailExecuted | EReturned

text \<open>
  The globals with the positions of the two threads, the argument vectors of the
  commands the input thread still has to read and hand over (\<open>input\<close>), and what
  \<^verbatim>\<open>execute_file\<close> has found in \<^verbatim>\<open>args\<close>, call after call (\<open>consumed\<close>).
\<close>

record system = shell_state +
  line_at :: line_pc
  exec_at :: exec_pc
  input :: "char list ptr list list"
  consumed :: "char list ptr list ptr list"

text \<open>
  The input thread, lines 396 to 416 of \<^verbatim>\<open>input_start\<close> for a line that is handed to
  the exec thread: \<^verbatim>\<open>create_args\<close> has filled \<^verbatim>\<open>args\<close> (\<open>LRead\<close>), then
  \<^verbatim>\<open>monitor_args_execute()\<close>, \<^verbatim>\<open>monitor_args_wait_finished()\<close>, \<^verbatim>\<open>clear_args()\<close>, and the
  test of the exit flag. At the end of the input: \<^verbatim>\<open>set_exit_flag(1)\<close>,
  \<^verbatim>\<open>monitor_args_execute()\<close>, \<^verbatim>\<open>return\<close>.
\<close>

definition line_step :: "system \<Rightarrow> system option" where
  "line_step s =
     (case line_at s of
        LRead \<Rightarrow>
          (case input s of
             [] \<Rightarrow> Some (s\<lparr>line_at := LSetExit\<rparr>)
           | v # vs \<Rightarrow> Some (s\<lparr>args := Ptr v, line_at := LPublish, input := vs\<rparr>))
      | LPublish \<Rightarrow> Some ((monitor_args_execute s)\<lparr>line_at := LWaitFinished\<rparr>)
      | LWaitFinished \<Rightarrow> if exec_args s then None else Some (s\<lparr>line_at := LClear\<rparr>)
      | LClear \<Rightarrow> Some (s\<lparr>args := Dangling, line_at := LCheckExit\<rparr>)
      | LCheckExit \<Rightarrow> Some (s\<lparr>line_at := (if exit_flag s then LReturned else LRead)\<rparr>)
      | LSetExit \<Rightarrow> Some ((set_exit_flag s)\<lparr>line_at := LWakeExec\<rparr>)
      | LWakeExec \<Rightarrow> Some ((monitor_args_execute s)\<lparr>line_at := LReturned\<rparr>)
      | LReturned \<Rightarrow> None)"

text \<open>
  The exec thread, \<^verbatim>\<open>cmd_exec_start\<close> (lines 533 to 553); \<open>ok\<close> tells whether
  \<^verbatim>\<open>execute_file()\<close> returns 0.
\<close>

definition exec_step :: "bool \<Rightarrow> system \<Rightarrow> system option" where
  "exec_step ok s =
     (case exec_at s of
        EWaitExecutable \<Rightarrow> if exec_args s then Some (s\<lparr>exec_at := ECheckExit\<rparr>) else None
      | ECheckExit \<Rightarrow> Some (s\<lparr>exec_at := (if exit_flag s then EReturned else EExecute)\<rparr>)
      | EExecute \<Rightarrow>
          Some (s\<lparr>exec_at := (if ok then EExecuted else EFailSetExit),
                  consumed := consumed s @ [args s]\<rparr>)
      | EExecuted \<Rightarrow> Some ((monitor_args_executed s)\<lparr>exec_at := EWaitExecutable\<rparr>)
      | EFailSetExit \<Rightarrow> Some ((set_exit_flag s)\<lparr>exec_at := EFailExecuted\<rparr>)
      | EFailExecuted \<Rightarrow> Some ((monitor_args_executed s)\<lparr>exec_at := EReturned\<rparr>)
      | EReturned \<Rightarrow> None)"

text \<open>A schedule is the list of the threads that take the next step, one after the other.\<close>

datatype actor = Line | Exec bool

fun step :: "actor \<Rightarrow> system \<Rightarrow> system option" where
  "step Line s = line_step s"
| "step (Exec ok) s = exec_step ok s"

fun run :: "actor list \<Rightarrow> system \<Rightarrow> system option" where
  "run [] s = Some s"
| "run (a # as) s = (case step a s of None \<Rightarrow> None | Some s' \<Rightarrow> run as s')"

text \<open>The state in which the two threads start, with the commands to come.\<close>

definition start :: "char list ptr list list \<Rightarrow> system" where
  "start cmds =
     \<lparr>argsc = 0, args = Null, redir_t = replicate MAXARG NUL, redir_f = replicate MAXARG NUL,
      run_bg = False, exec_args = False, exit_flag = False, jobs = [],
      line_at = LRead, exec_at = EWaitExecutable, input = cmds, consumed = []\<rparr>"

text \<open>
  The invariant of the monitor: for each position of the input thread, where the exec
  thread can be, what the two flags are, and which commands have been consumed.
\<close>

definition handoff_inv :: "char list ptr list list \<Rightarrow> system \<Rightarrow> bool" where
  "handoff_inv cmds s =
     (\<exists>fin.
        (case line_at s of
           LRead \<Rightarrow>
             exec_at s = EWaitExecutable \<and> \<not> exec_args s \<and> \<not> exit_flag s \<and>
             cmds = fin @ input s \<and> consumed s = map Ptr fin
         | LPublish \<Rightarrow>
             exec_at s = EWaitExecutable \<and> \<not> exec_args s \<and> \<not> exit_flag s \<and>
             (\<exists>v. args s = Ptr v \<and> cmds = fin @ v # input s) \<and> consumed s = map Ptr fin
         | LWaitFinished \<Rightarrow>
             (\<exists>v. args s = Ptr v \<and> cmds = fin @ v # input s \<and>
               (case exec_at s of
                  EWaitExecutable \<Rightarrow> \<not> exit_flag s \<and>
                    consumed s = map Ptr (if exec_args s then fin else fin @ [v])
                | ECheckExit \<Rightarrow> exec_args s \<and> \<not> exit_flag s \<and> consumed s = map Ptr fin
                | EExecute \<Rightarrow> exec_args s \<and> \<not> exit_flag s \<and> consumed s = map Ptr fin
                | EExecuted \<Rightarrow> exec_args s \<and> \<not> exit_flag s \<and> consumed s = map Ptr (fin @ [v])
                | EFailSetExit \<Rightarrow> exec_args s \<and> \<not> exit_flag s \<and> consumed s = map Ptr (fin @ [v])
                | EFailExecuted \<Rightarrow> exec_args s \<and> exit_flag s \<and> consumed s = map Ptr (fin @ [v])
                | EReturned \<Rightarrow> \<not> exec_args s \<and> exit_flag s \<and> consumed s = map Ptr (fin @ [v])))
         | LClear \<Rightarrow>
             \<not> exec_args s \<and> cmds = fin @ input s \<and> fin \<noteq> [] \<and> consumed s = map Ptr fin \<and>
             args s = Ptr (last fin) \<and>
             (if exit_flag s then exec_at s = EReturned else exec_at s = EWaitExecutable)
         | LCheckExit \<Rightarrow>
             \<not> exec_args s \<and> cmds = fin @ input s \<and> consumed s = map Ptr fin \<and>
             (if exit_flag s then exec_at s = EReturned else exec_at s = EWaitExecutable)
         | LSetExit \<Rightarrow>
             exec_at s = EWaitExecutable \<and> \<not> exec_args s \<and> \<not> exit_flag s \<and>
             input s = [] \<and> cmds = fin \<and> consumed s = map Ptr fin
         | LWakeExec \<Rightarrow>
             exec_at s = EWaitExecutable \<and> \<not> exec_args s \<and> exit_flag s \<and>
             input s = [] \<and> cmds = fin \<and> consumed s = map Ptr fin
         | LReturned \<Rightarrow>
             exit_flag s \<and> cmds = fin @ input s \<and> consumed s = map Ptr fin \<and>
             (if exec_args s
              then input s = [] \<and> (exec_at s = EWaitExecutable \<or> exec_at s = ECheckExit \<or> exec_at s = EReturned)
              else exec_at s = EReturned)))"

text \<open>The schedule of one command handed over and executed without a race.\<close>

definition round_of :: "actor list" where
  "round_of = [Line, Line, Exec True, Exec True, Exec True, Exec True, Line, Line, Line]"

section \<open>Tokens of a line\<close>

text \<open>
  The tokens of a line in the words of the specification: the maximal runs of bytes
  that are not whitespace. \<open>tok acc s\<close> splits \<open>s\<close> with \<open>acc\<close> the token begun so far.
\<close>

fun tok :: "string \<Rightarrow> string \<Rightarrow> string list" where
  "tok acc [] = (if acc = [] then [] else [acc])"
| "tok acc (c # cs) =
     (if is_space c then (if acc = [] then tok [] cs else acc # tok [] cs)
      else tok (acc @ [c]) cs)"

definition tokens :: "string \<Rightarrow> string list" where
  "tokens line = tok [] line"

text \<open>
  The byte just below the buffer stops the backward scans: there is one, and it is not
  whitespace.
\<close>

definition guarded :: "char list \<Rightarrow> bool" where
  "guarded pre = (case pre of [] \<Rightarrow> False | d # ds \<Rightarrow> \<not> is_space d)"

text \<open>What the first pass may end with on a line that has a token of MAXARG bytes or more.\<close>

definition long_outcome :: "char list \<Rightarrow> string list \<Rightarrow> error + shell_state \<times> locals \<Rightarrow> bool" where
  "long_outcome pre T r =
     (case r of
        Inl e \<Rightarrow> e = ArgTooLong \<or>
                 (e = NoWhitespaceAfter CHR ''>'' \<and> ''>'' \<in> set T) \<or>
                 (e = NoWhitespaceAfter CHR ''<'' \<and> ''<'' \<in> set T) \<or>
                 (e = OutOfBounds \<and> \<not> guarded pre)
      | Inr gl \<Rightarrow> int MAXARG \<le> loc_i (snd gl))"

text \<open>
  An ordinary argument: a token that is not empty, does not begin with one of the
  operators \<^verbatim>\<open>>\<close>, \<^verbatim>\<open><\<close> and \<^verbatim>\<open>&\<close>, and fits into an array of MAXARG bytes with
  its terminator.
\<close>

definition plain :: "string \<Rightarrow> bool" where
  "plain w = (w \<noteq> [] \<and> hd w \<noteq> CHR ''>'' \<and> hd w \<noteq> CHR ''<'' \<and> hd w \<noteq> CHR ''&'' \<and>
              length w < MAXARG)"

text \<open>
  The array \<^verbatim>\<open>args[k]\<close> after \<^verbatim>\<open>memset\<close> and \<^verbatim>\<open>memcpy\<close> of the token \<open>w\<close>, and the argument
  vector when the second pass has copied the first \<open>k\<close> tokens of \<open>ws\<close>.
\<close>

definition padded :: "string \<Rightarrow> char list" where
  "padded w = w @ replicate (MAXARG - length w) NUL"

definition filled :: "string list \<Rightarrow> nat \<Rightarrow> char list ptr list" where
  "filled ws k =
     map (\<lambda>w. Ptr (padded w)) (take k ws) @
     replicate (length ws - k) (Ptr (replicate MAXARG NUL)) @ [Null]"

section \<open>Properties of the tokenizer\<close>

subsection \<open>Reading, skipping, allocating\<close>

lemma then_do_weak_cong: "m = m' \<Longrightarrow> then_do m f = then_do m' f" by simp

lemma replicate_update_same [simp]: "(replicate n x)[k := x] = replicate n x"
  by (induction n arbitrary: k) (auto split: nat.splits)

lemma not_space_NUL [simp]: "\<not> is_space NUL"
  by (simp add: is_space_def NUL_def)

lemma NUL_not_operator [simp]:
  "NUL \<noteq> CHR ''>''" "NUL \<noteq> CHR ''<''" "NUL \<noteq> CHR ''&''"
  by (simp_all add: NUL_def)

lemma peek_nat: "p < length buf \<Longrightarrow> peek pre buf (int p) = Inr (buf ! p)"
  by (simp add: peek_def)

lemma skip_fwd_spec:
  assumes "p \<le> p'" and "p' < length buf"
    and "\<forall>q. p \<le> q \<and> q < p' \<longrightarrow> is_space (buf ! q)" and "\<not> is_space (buf ! p')"
  shows "skip_fwd pre buf (int p, b) = Inr (int p', if p = p' then b else int p')"
  using assms
proof (induction "p' - p" arbitrary: p b)
  case 0
  then have "p = p'" by simp
  with 0 show ?case
    by (simp add: skip_fwd.simps [of pre buf "int p'" b] peek_nat)
next
  case (Suc k)
  then have lt: "p < p'" by simp
  with Suc.prems have sp: "is_space (buf ! p)" by simp
  from lt Suc.prems have inb: "p < length buf" by simp
  from Suc.hyps(2) have k: "k = p' - Suc p" by simp
  have "skip_fwd pre buf (int (Suc p), int (Suc p)) = Inr (int p', if Suc p = p' then int (Suc p) else int p')"
    using Suc.prems lt by (intro Suc.hyps(1) [OF k]) auto
  then have "skip_fwd pre buf (int p + 1, int p + 1) = Inr (int p', int p')"
    by (auto simp: add.commute split: if_splits)
  with sp inb lt show ?case
    by (simp add: skip_fwd.simps [of pre buf "int p" b] peek_nat)
qed

lemma skip_back_error: "skip_back pre buf q = Inl e \<Longrightarrow> e = OutOfBounds"
proof (induction pre buf q rule: skip_back.induct)
  case (1 pre buf p)
  show ?case
  proof (cases "peek pre buf p")
    case (Inl e')
    with "1.prems" show ?thesis
      by (auto simp: skip_back.simps [of pre buf p] peek_def split: if_splits)
  next
    case (Inr c)
    with 1 show ?thesis
      by (cases "is_space c") (simp_all add: skip_back.simps [of pre buf p])
  qed
qed

lemma skip_back_le: "skip_back pre buf q = Inr b \<Longrightarrow> b \<le> q"
proof (induction pre buf q rule: skip_back.induct)
  case (1 pre buf p)
  show ?case
  proof (cases "peek pre buf p")
    case (Inl e')
    with "1.prems" show ?thesis
      by (simp add: skip_back.simps [of pre buf p])
  next
    case (Inr c)
    show ?thesis
    proof (cases "is_space c")
      case True
      with Inr "1.prems" have "skip_back pre buf (p - 1) = Inr b"
        by (simp add: skip_back.simps [of pre buf p])
      with "1.IH" [OF Inr True] show ?thesis by simp
    next
      case False
      with Inr "1.prems" show ?thesis
        by (simp add: skip_back.simps [of pre buf p])
    qed
  qed
qed

lemma skip_back_guarded:
  assumes "guarded pre" and "- 1 \<le> q" and "q < int (length buf)"
  shows "\<exists>b. skip_back pre buf q = Inr b \<and> - 1 \<le> b"
  using assms(2,3)
proof (induction "nat (q + 1)" arbitrary: q)
  case 0
  then have q: "q = - 1" by simp
  from assms(1) obtain d ds where "pre = d # ds" and "\<not> is_space d"
    by (auto simp: guarded_def split: list.splits)
  then have "skip_back pre buf (- 1) = Inr (- 1)"
    by (subst skip_back.simps) (simp add: peek_def)
  with q show ?case by simp
next
  case (Suc k)
  then have q0: "0 \<le> q" by simp
  with Suc.prems have pk: "peek pre buf q = Inr (buf ! nat q)"
    by (simp add: peek_def)
  show ?case
  proof (cases "is_space (buf ! nat q)")
    case True
    from Suc.hyps(2) have "k = nat (q - 1 + 1)" by simp
    moreover from q0 have "- 1 \<le> q - 1" by simp
    moreover from Suc.prems have "q - 1 < int (length buf)" by simp
    ultimately have "\<exists>b. skip_back pre buf (q - 1) = Inr b \<and> - 1 \<le> b"
      by (rule Suc.hyps(1))
    with pk True show ?thesis
      by (simp add: skip_back.simps [of pre buf q])
  next
    case False
    with pk q0 show ?thesis
      by (simp add: skip_back.simps [of pre buf q])
  qed
qed

lemma skip_back_blanks:
  assumes "guarded pre" and "\<forall>q < n. is_space (buf ! q)" and "n \<le> length buf"
  shows "skip_back pre buf (int n - 1) = Inr (- 1)"
  using assms(2,3)
proof (induction n)
  case 0
  from assms(1) obtain d ds where "pre = d # ds" and "\<not> is_space d"
    by (auto simp: guarded_def split: list.splits)
  then show ?case
    by (subst skip_back.simps) (simp add: peek_def)
next
  case (Suc n)
  then have "skip_back pre buf (int n - 1) = Inr (- 1)" by simp
  moreover from Suc.prems have "peek pre buf (int n) = Inr (buf ! n)" "is_space (buf ! n)"
    by (simp_all add: peek_nat)
  ultimately show ?case
    by (subst skip_back.simps) simp
qed

lemma replicate_small:
  "replicate 1 x = [x]" "replicate 2 x = [x, x]" "replicate 3 x = [x, x, x]"
  by (simp_all add: numeral_eq_Suc)

lemma fold_alloc:
  "n \<le> m \<Longrightarrow> fold (\<lambda>k a. a[k := x]) [0..<n] (replicate m y) = replicate n x @ replicate (m - n) y"
proof (induction n)
  case 0
  then show ?case by simp
next
  case (Suc n)
  then have "m - n = Suc (m - Suc n)" by simp
  with Suc show ?case
    by (simp add: list_update_append replicate_append_same)
qed

lemma alloc_args_ok:
  "1 \<le> argsc g \<Longrightarrow> nat (argsc g) \<le> avail \<Longrightarrow>
   alloc_args avail g
     = Inr (g\<lparr>args := Ptr (replicate (nat (argsc g - 1)) (Ptr (replicate MAXARG NUL)) @ [Null])\<rparr>)"
proof -
  assume a: "1 \<le> argsc g" "nat (argsc g) \<le> avail"
  define n where "n = nat (argsc g - 1)"
  with a have m: "nat (argsc g) = Suc n" by simp
  have "fold (\<lambda>k a. a[k := Ptr (replicate MAXARG NUL)]) [0..<n] (replicate (Suc n) Null)
          = replicate n (Ptr (replicate MAXARG NUL)) @ replicate (Suc n - n) Null"
    by (rule fold_alloc) simp
  with a m show ?thesis
    by (simp add: alloc_args_def n_def [symmetric])
qed

lemma cstr_Nil [simp]: "cstr [] = []" by (simp add: cstr_def)
lemma cstr_NUL [simp]: "cstr (NUL # a) = []" by (simp add: cstr_def)
lemma cstr_Cons [simp]: "c \<noteq> NUL \<Longrightarrow> cstr (c # a) = c # cstr a" by (simp add: cstr_def)
lemma cstr_replicate_NUL [simp]: "cstr (replicate n NUL) = []" by (cases n) simp_all
lemma cstr_cleared: "a ! 0 = NUL \<Longrightarrow> cstr a = []" by (cases a) simp_all

lemma list_update_Cons_pos: "0 < k \<Longrightarrow> (x # xs)[k := y] = x # xs[k - 1 := y]"
  by (cases k) simp_all

lemma cstr_zero [simp]:
  "cstr (CHR 0x00 # a) = []"
  "c \<noteq> CHR 0x00 \<Longrightarrow> cstr (c # a) = c # cstr a"
  "cstr (replicate n (CHR 0x00)) = []"
  using cstr_NUL [of a] cstr_Cons [of c a] cstr_replicate_NUL [of n] by (simp_all add: NUL_def)
lemma Cons_replicate: "Suc n = m \<Longrightarrow> x # replicate n x = replicate m x"
  by auto

text \<open>The equations that evaluate \<^const>\<open>create_args\<close> on a given line.\<close>

lemmas create_args_eval =
  count_loop.simps fill_loop.simps skip_fwd.simps skip_back.simps count_token_def
  count_finish_def fill_token_def fill_finish_def create_args_def alloc_args_ok copy_arg_def
  null_arg_def copy_redir_def memcpy_from_def peek_def poke_def is_space_def NUL_def MAXARG_def
  Let_def list_update_Cons_pos replicate_small

subsection \<open>The first pass on a line with a long token\<close>

lemma tok_blanks: "\<forall>c \<in> set ws. is_space c \<Longrightarrow> tok [] (ws @ s) = tok [] s"
  by (induction ws) auto

lemma tok_acc_mem: "acc \<noteq> [] \<Longrightarrow> is_space c \<Longrightarrow> acc \<in> set (tok acc (c # cs))"
  by simp

lemma tok_nonblank:
  "\<forall>c \<in> set s. \<not> is_space c \<Longrightarrow> acc @ s \<noteq> [] \<Longrightarrow> tok acc s = [acc @ s]"
  by (induction s arbitrary: acc) auto

lemma first_nonblank:
  "p \<le> length line \<Longrightarrow>
     \<exists>p'. p \<le> p' \<and> p' \<le> length line \<and> (\<forall>q. p \<le> q \<and> q < p' \<longrightarrow> is_space (line ! q)) \<and>
          (p' < length line \<longrightarrow> \<not> is_space (line ! p')) \<and> tok [] (drop p line) = tok [] (drop p' line)"
proof (induction "length line - p" arbitrary: p)
  case 0
  then have "p = length line" by simp
  then show ?case by auto
next
  case (Suc k)
  then have lt: "p < length line" by simp
  show ?case
  proof (cases "is_space (line ! p)")
    case True
    from Suc.hyps(2) have "k = length line - Suc p" by simp
    moreover from lt have "Suc p \<le> length line" by simp
    ultimately obtain p' where p': "Suc p \<le> p'" "p' \<le> length line"
      "\<forall>q. Suc p \<le> q \<and> q < p' \<longrightarrow> is_space (line ! q)"
      "p' < length line \<longrightarrow> \<not> is_space (line ! p')"
      "tok [] (drop (Suc p) line) = tok [] (drop p' line)"
      using Suc.hyps(1) by blast
    from lt have "drop p line = line ! p # drop (Suc p) line"
      by (simp add: Cons_nth_drop_Suc)
    with True p'(5) have "tok [] (drop p line) = tok [] (drop p' line)" by simp
    moreover have "\<forall>q. p \<le> q \<and> q < p' \<longrightarrow> is_space (line ! q)"
    proof (intro allI impI)
      fix q assume "p \<le> q \<and> q < p'"
      then consider "q = p" | "Suc p \<le> q \<and> q < p'" by linarith
      then show "is_space (line ! q)" using True p'(3) by cases auto
    qed
    ultimately show ?thesis using p'(1,2,4) by (intro exI [of _ p']) auto
  next
    case False
    with lt show ?thesis by (intro exI [of _ p]) auto
  qed
qed

lemma long_outcome_mono:
  "set T' \<subseteq> set T \<Longrightarrow> long_outcome pre T' r \<Longrightarrow> long_outcome pre T r"
  by (auto simp: long_outcome_def split: sum.splits)

lemma count_token_cases:
  assumes b: "loc_bptr l = int b" and p: "loc_ptr l = int p" and bp: "b < p" and pl: "p < length (loc_buf l)"
  shows "(count_token pre (g, l) = Inl OutOfBounds \<and> \<not> guarded pre) \<or>
         (\<exists>c. count_token pre (g, l) = Inl (NoWhitespaceAfter c) \<and> c = loc_buf l ! b \<and>
              (c = CHR ''>'' \<or> c = CHR ''<'') \<and> is_space (loc_buf l ! Suc b)) \<or>
         (\<exists>g1 l1. count_token pre (g, l) = Inr (g1, l1) \<and> loc_ptr l1 = int p \<and>
              length (loc_buf l1) = length (loc_buf l) \<and>
              (\<forall>q. b < q \<longrightarrow> loc_buf l1 ! q = loc_buf l ! q))"
proof -
  let ?buf = "loc_buf l"
  from bp pl have pk: "peek pre ?buf (int b) = Inr (?buf ! b)"
    by (simp add: peek_nat)
  from bp pl have pk1: "peek pre ?buf (int b + 1) = Inr (?buf ! Suc b)"
    using peek_nat [of "Suc b" ?buf pre] by (simp add: add.commute)
  consider (redir) "?buf ! b = CHR ''>'' \<or> ?buf ! b = CHR ''<''"
    | (amp) "?buf ! b = CHR ''&''"
    | (plain) "?buf ! b \<noteq> CHR ''>''" "?buf ! b \<noteq> CHR ''<''" "?buf ! b \<noteq> CHR ''&''"
    by blast
  then show ?thesis
  proof cases
    case redir
    with b p pk pk1 show ?thesis
      by (auto simp: count_token_def)
  next
    case amp
    have range: "- 1 \<le> int b - 1" "int b - 1 < int (length ?buf)"
      using bp pl by simp_all
    show ?thesis
    proof (cases "skip_back pre ?buf (int b - 1)")
      case (Inl e)
      then have e: "e = OutOfBounds" by (rule skip_back_error)
      have "\<not> guarded pre"
        using skip_back_guarded [OF _ range, of pre] Inl by auto
      with amp b pk Inl e show ?thesis
        by (simp add: count_token_def)
    next
      case (Inr b')
      then have le: "b' \<le> int b - 1" by (rule skip_back_le)
      show ?thesis
      proof (cases "- 1 \<le> b'")
        case True
        with le bp pl have "poke ?buf (b' + 1) NUL = Inr (?buf[nat (b' + 1) := NUL])"
          by (simp add: poke_def)
        moreover from le True have "nat (b' + 1) \<le> b" by simp
        ultimately show ?thesis using amp b p pk Inr
          by (auto simp: count_token_def)
      next
        case False
        then have "poke ?buf (b' + 1) NUL = Inl OutOfBounds"
          by (simp add: poke_def)
        moreover have "\<not> guarded pre"
          using skip_back_guarded [OF _ range, of pre] Inr False by auto
        ultimately show ?thesis using amp b pk Inr
          by (simp add: count_token_def)
      qed
    qed
  next
    case plain
    with b p pk show ?thesis
      by (simp add: count_token_def)
  qed
qed

lemma nth_line_NUL: "q < length line \<Longrightarrow> (line @ [NUL]) ! q = line ! q"
  by (simp add: nth_append)

lemma count_loop_long:
  assumes nul: "NUL \<notin> set line"
  shows "loc_ptr l = int p \<Longrightarrow> loc_bptr l = int b \<Longrightarrow> b \<le> p \<Longrightarrow> p \<le> length line \<Longrightarrow>
     loc_i l = int (p - b) \<Longrightarrow>
     length (loc_buf l) = Suc (length line + length rest) \<Longrightarrow>
     (\<forall>q. b \<le> q \<and> q \<le> length line \<longrightarrow> loc_buf l ! q = (line @ [NUL]) ! q) \<Longrightarrow>
     (\<forall>q. b \<le> q \<and> q < p \<longrightarrow> \<not> is_space (line ! q)) \<Longrightarrow>
     (\<exists>t \<in> set (tok (take (p - b) (drop b line)) (drop p line)). MAXARG \<le> length t) \<Longrightarrow>
     long_outcome pre (tok (take (p - b) (drop b line)) (drop p line)) (count_loop pre (g, l))"
proof (induction "length line - p" arbitrary: g l p b rule: less_induct)
  case less
  let ?n = "length line"
  let ?buf = "loc_buf l"
  let ?acc = "take (p - b) (drop b line)"
  let ?T = "tok ?acc (drop p line)"
  note ptr = \<open>loc_ptr l = int p\<close> and bptr = \<open>loc_bptr l = int b\<close>
  note agree = \<open>\<forall>q. b \<le> q \<and> q \<le> ?n \<longrightarrow> ?buf ! q = (line @ [NUL]) ! q\<close>
  note nonblank = \<open>\<forall>q. b \<le> q \<and> q < p \<longrightarrow> \<not> is_space (line ! q)\<close>
  note len = \<open>length ?buf = Suc (?n + length rest)\<close>
  from less.prems obtain t where t: "t \<in> set ?T" "MAXARG \<le> length t" by blast
  from \<open>p \<le> ?n\<close> len have inb: "p < length ?buf" by simp
  then have pk: "peek pre ?buf (int p) = Inr (?buf ! p)" by (rule peek_nat)
  from agree \<open>b \<le> p\<close> \<open>p \<le> ?n\<close> have bufp: "?buf ! p = (line @ [NUL]) ! p" by simp
  have acclen: "length ?acc = p - b" using \<open>p \<le> ?n\<close> by simp
  show ?case
  proof (cases "p = ?n")
    case True
    with bufp have "?buf ! p = NUL" by simp
    with pk ptr have res: "count_loop pre (g, l) = Inr (g, l)"
      by (subst count_loop.simps) simp
    from True t have "t = ?acc" by (simp split: if_splits)
    with t(2) acclen have "MAXARG \<le> p - b" by simp
    with \<open>loc_i l = int (p - b)\<close> res show ?thesis
      by (simp add: long_outcome_def)
  next
    case False
    with \<open>p \<le> ?n\<close> have lt: "p < ?n" by simp
    define c where "c = line ! p"
    from lt bufp have bc: "?buf ! p = c" by (simp add: c_def nth_line_NUL)
    from lt have "c \<in> set line" unfolding c_def by (rule nth_mem)
    with nul have cnul: "c \<noteq> NUL" by blast
    from lt have suf: "drop p line = c # drop (Suc p) line"
      by (simp add: c_def Cons_nth_drop_Suc)
    show ?thesis
    proof (cases "is_space c")
      case True
      note blank = this
      show ?thesis
      proof (cases "MAXARG \<le> p - b")
        case True
        with pk ptr bc cnul blank \<open>loc_i l = int (p - b)\<close>
        have "count_loop pre (g, l) = Inl ArgTooLong"
          by (subst count_loop.simps) simp
        then show ?thesis by (simp add: long_outcome_def)
      next
        case False
        note short = this
        with \<open>loc_i l = int (p - b)\<close> have ishort: "\<not> int MAXARG \<le> loc_i l" by simp
        from lt obtain p' where p': "Suc p \<le> p'" "p' \<le> ?n"
          "\<forall>q. Suc p \<le> q \<and> q < p' \<longrightarrow> is_space (line ! q)"
          "p' < ?n \<longrightarrow> \<not> is_space (line ! p')"
          "tok [] (drop (Suc p) line) = tok [] (drop p' line)"
          using first_nonblank [of "Suc p" line] by auto
        have sub: "set (tok [] (drop p' line)) \<subseteq> set ?T"
          using suf blank p'(5) by auto
        from t suf blank short acclen p'(5) have long': "\<exists>t \<in> set (tok [] (drop p' line)). MAXARG \<le> length t"
          by (auto split: if_splits)
        have step: "count_loop pre (g, l) =
            then_do (count_token pre (g, l)) (\<lambda>(g1, l1).
              then_do (skip_fwd pre (loc_buf l1) (loc_ptr l1, loc_ptr l1 + 1)) (\<lambda>(p, b).
                count_loop pre (g1, l1\<lparr>loc_i := - 1 + 1, loc_bptr := b, loc_ptr := p - 1 + 1\<rparr>)))"
          using pk ptr bc cnul blank ishort by (subst count_loop.simps) simp
        have tokres: "(count_token pre (g, l) = Inl OutOfBounds \<and> \<not> guarded pre) \<or>
           (\<exists>d. count_token pre (g, l) = Inl (NoWhitespaceAfter d) \<and> d = ?buf ! b \<and>
              (d = CHR ''>'' \<or> d = CHR ''<'') \<and> is_space (?buf ! Suc b)) \<or>
           (\<exists>g1 l1. count_token pre (g, l) = Inr (g1, l1) \<and> loc_ptr l1 = int p \<and>
              length (loc_buf l1) = length ?buf \<and>
              (\<forall>q. p \<le> q \<longrightarrow> loc_buf l1 ! q = ?buf ! q))"
        proof (cases "b < p")
          case True
          from count_token_cases [OF bptr ptr True inb, of pre g] True show ?thesis
            by (elim disjE exE conjE) auto
        next
          case False
          with \<open>b \<le> p\<close> have "b = p" by simp
          with bc blank have "is_space (?buf ! b)" by simp
          then have "?buf ! b \<noteq> CHR ''>''" "?buf ! b \<noteq> CHR ''<''" "?buf ! b \<noteq> CHR ''&''"
            by (auto simp: is_space_def)
          with bptr ptr pk \<open>b = p\<close> show ?thesis
            by (simp add: count_token_def)
        qed
        then consider (oob) "count_token pre (g, l) = Inl OutOfBounds" "\<not> guarded pre"
          | (nows) d where "count_token pre (g, l) = Inl (NoWhitespaceAfter d)" "d = ?buf ! b"
              "d = CHR ''>'' \<or> d = CHR ''<''" "is_space (?buf ! Suc b)"
          | (ok) g1 l1 where "count_token pre (g, l) = Inr (g1, l1)" "loc_ptr l1 = int p"
              "length (loc_buf l1) = length ?buf" "\<forall>q. p \<le> q \<longrightarrow> loc_buf l1 ! q = ?buf ! q"
          by blast
        then show ?thesis
        proof cases
          case oob
          with step show ?thesis by (simp add: long_outcome_def)
        next
          case nows
          have "b < p"
          proof (rule ccontr)
            assume "\<not> b < p"
            with \<open>b \<le> p\<close> have "b = p" by simp
            with bc blank nows(2,3) show False by (auto simp: is_space_def)
          qed
          have "Suc b = p"
          proof (rule ccontr)
            assume "Suc b \<noteq> p"
            with \<open>b < p\<close> have sb: "Suc b < p" by simp
            with nonblank have "\<not> is_space (line ! Suc b)" by simp
            moreover from sb lt agree have "?buf ! Suc b = line ! Suc b"
              by (simp add: nth_line_NUL)
            ultimately show False using nows(4) by simp
          qed
          from \<open>b < p\<close> lt agree have "?buf ! b = line ! b" by (simp add: nth_line_NUL)
          moreover from \<open>b < p\<close> lt have "drop b line = line ! b # drop (Suc b) line"
            by (simp add: Cons_nth_drop_Suc)
          then have "take (Suc b - b) (drop b line) = [line ! b]" by simp
          ultimately have "?acc = [d]"
            using \<open>Suc b = p\<close> nows(2) by simp
          with suf blank have "[d] \<in> set ?T" by simp
          with nows(1,3) step show ?thesis by (auto simp: long_outcome_def)
        next
          case ok
          have blanks: "\<forall>q. p \<le> q \<and> q < p' \<longrightarrow> is_space (loc_buf l1 ! q)"
          proof (intro allI impI)
            fix q assume q: "p \<le> q \<and> q < p'"
            with ok(4) agree \<open>b \<le> p\<close> p'(2) have "loc_buf l1 ! q = line ! q"
              by (simp add: nth_line_NUL)
            moreover from q consider "q = p" | "Suc p \<le> q \<and> q < p'" by linarith
            then have "is_space (line ! q)" using blank p'(3) by cases (auto simp: c_def)
            ultimately show "is_space (loc_buf l1 ! q)" by simp
          qed
          have stop: "\<not> is_space (loc_buf l1 ! p')"
          proof (cases "p' < ?n")
            case True
            with ok(4) agree \<open>b \<le> p\<close> p'(1) have "loc_buf l1 ! p' = line ! p'"
              by (simp add: nth_line_NUL)
            with True p'(4) show ?thesis by simp
          next
            case False
            with p'(2) have "p' = ?n" by simp
            with ok(4) agree \<open>b \<le> p\<close> p'(1) have "loc_buf l1 ! p' = NUL" by simp
            then show ?thesis by (simp add: is_space_def NUL_def)
          qed
          from p'(1,2) ok(3) len have "p \<le> p'" "p' < length (loc_buf l1)" by simp_all
          from skip_fwd_spec [OF this blanks stop, of pre "int p + 1"] p'(1)
          have skip: "skip_fwd pre (loc_buf l1) (loc_ptr l1, loc_ptr l1 + 1) = Inr (int p', int p')"
            using ok(2) by simp
          let ?l2 = "l1\<lparr>loc_i := - 1 + 1, loc_bptr := int p', loc_ptr := int p' - 1 + 1\<rparr>"
          from step ok(1) skip have step': "count_loop pre (g, l) = count_loop pre (g1, ?l2)"
            by simp
          have "long_outcome pre (tok (take (p' - p') (drop p' line)) (drop p' line)) (count_loop pre (g1, ?l2))"
          proof (rule less.hyps)
            show "?n - p' < ?n - p" using p'(1,2) lt by simp
            show "loc_ptr ?l2 = int p'" by simp
            show "loc_bptr ?l2 = int p'" by simp
            show "p' \<le> p'" by simp
            show "p' \<le> ?n" by (rule p'(2))
            show "loc_i ?l2 = int (p' - p')" by simp
            show "length (loc_buf ?l2) = Suc (?n + length rest)" using ok(3) len by simp
            show "\<forall>q. p' \<le> q \<and> q \<le> ?n \<longrightarrow> loc_buf ?l2 ! q = (line @ [NUL]) ! q"
              using ok(4) agree \<open>b \<le> p\<close> p'(1) by simp
            show "\<forall>q. p' \<le> q \<and> q < p' \<longrightarrow> \<not> is_space (line ! q)" by auto
            show "\<exists>t \<in> set (tok (take (p' - p') (drop p' line)) (drop p' line)). MAXARG \<le> length t"
              using long' by simp
          qed
          then have "long_outcome pre (tok [] (drop p' line)) (count_loop pre (g, l))"
            using step' by simp
          with sub show ?thesis by (rule long_outcome_mono)
        qed
      qed
    next
      case False
      let ?l2 = "l\<lparr>loc_ptr := loc_ptr l + 1, loc_i := loc_i l + 1\<rparr>"
      from pk ptr bc cnul False have step: "count_loop pre (g, l) = count_loop pre (g, ?l2)"
        by (subst count_loop.simps) simp
      from \<open>b \<le> p\<close> lt have "take (Suc p - b) (drop b line) = ?acc @ [c]"
        by (simp add: c_def Suc_diff_le take_Suc_conv_app_nth)
      with suf False have Teq: "tok (take (Suc p - b) (drop b line)) (drop (Suc p) line) = ?T"
        by simp
      have "long_outcome pre (tok (take (Suc p - b) (drop b line)) (drop (Suc p) line)) (count_loop pre (g, ?l2))"
      proof (rule less.hyps)
        show "?n - Suc p < ?n - p" using lt by simp
        show "loc_ptr ?l2 = int (Suc p)" using ptr by simp
        show "loc_bptr ?l2 = int b" using bptr by simp
        show "b \<le> Suc p" using \<open>b \<le> p\<close> by simp
        show "Suc p \<le> ?n" using lt by simp
        show "loc_i ?l2 = int (Suc p - b)" using \<open>loc_i l = int (p - b)\<close> \<open>b \<le> p\<close> by simp
        show "length (loc_buf ?l2) = Suc (?n + length rest)" using len by simp
        show "\<forall>q. b \<le> q \<and> q \<le> ?n \<longrightarrow> loc_buf ?l2 ! q = (line @ [NUL]) ! q"
          using agree by simp
        show "\<forall>q. b \<le> q \<and> q < Suc p \<longrightarrow> \<not> is_space (line ! q)"
          using nonblank False by (auto simp: c_def less_Suc_eq)
        show "\<exists>t \<in> set (tok (take (Suc p - b) (drop b line)) (drop (Suc p) line)). MAXARG \<le> length t"
          using t Teq by auto
      qed
      with step Teq show ?thesis by simp
    qed
  qed
qed


subsection \<open>The two passes on a line that ends with the background operator\<close>

lemma skip_back_stop:
  assumes "e \<le> m" and "m < length buf" and "\<not> is_space (buf ! e)"
    and "\<forall>q. e < q \<and> q \<le> m \<longrightarrow> is_space (buf ! q)"
  shows "skip_back pre buf (int m) = Inr (int e)"
  using assms(1,2,4)
proof (induction "m - e" arbitrary: m)
  case 0
  then have "m = e" by simp
  with assms(3) 0 show ?case
    by (subst skip_back.simps) (simp add: peek_nat)
next
  case (Suc d)
  then have lt: "e < m" by simp
  with Suc.prems have sp: "is_space (buf ! m)" by simp
  from Suc.hyps(2) lt have d: "d = (m - 1) - e" by simp
  have "skip_back pre buf (int (m - 1)) = Inr (int e)"
    using Suc.prems lt by (intro Suc.hyps(1) [OF d]) auto
  moreover from lt have "int (m - 1) = int m - 1" by simp
  ultimately have "skip_back pre buf (int m - 1) = Inr (int e)" by simp
  with sp Suc.prems show ?case
    by (subst skip_back.simps) (simp add: peek_nat)
qed

lemma tok_append_blank:
  "is_space c \<Longrightarrow> tok acc (xs @ c # ys) = tok acc xs @ tok [] ys"
  by (induction xs arbitrary: acc) auto

lemma tok_last_nonblank:
  "s \<noteq> [] \<Longrightarrow> \<not> is_space (last s) \<Longrightarrow> tok acc s \<noteq> []"
  by (induction s arbitrary: acc) (auto split: if_splits)

lemma cstr_padded: "NUL \<notin> set w \<Longrightarrow> cstr (w @ replicate m NUL) = w"
  by (induction w) auto

lemma nth_buf_line: "q < length line \<Longrightarrow> (line @ NUL # rest) ! q = line ! q"
  by (simp add: nth_append)

lemma nth_buf_NUL: "(line @ NUL # rest) ! length line = NUL"
  by (simp add: nth_append)

lemma plain_hd:
  "plain w \<Longrightarrow> hd w \<noteq> CHR ''>'' \<and> hd w \<noteq> CHR ''<'' \<and> hd w \<noteq> CHR ''&''"
  by (simp add: plain_def)

lemma tok_Nil_blank: "tok acc s = [] \<Longrightarrow> acc = [] \<and> (\<forall>c \<in> set s. is_space c)"
  by (induction s arbitrary: acc) (auto split: if_splits)

lemma count_pass_amp:
  assumes nul: "NUL \<notin> set line"
  shows "loc_ptr l = int p \<Longrightarrow> loc_bptr l = int b \<Longrightarrow> b \<le> p \<Longrightarrow> p \<le> length line \<Longrightarrow>
     loc_i l = int (p - b) \<Longrightarrow> loc_buf l = line @ NUL # rest \<Longrightarrow>
     (\<forall>q. b \<le> q \<and> q < p \<longrightarrow> \<not> is_space (line ! q)) \<Longrightarrow>
     (b = p \<longrightarrow> p = length line \<or> \<not> is_space (line ! p)) \<Longrightarrow>
     tok (take (p - b) (drop b line)) (drop p line) = us @ [''&''] \<Longrightarrow>
     (\<forall>u \<in> set us. plain u) \<Longrightarrow>
     argsc g = 1 + int k \<Longrightarrow> \<not> run_bg g \<Longrightarrow> 0 < k + length us \<Longrightarrow>
     (0 < k \<longrightarrow> 0 < e \<and> e < b \<and> \<not> is_space (line ! (e - 1)) \<and>
                (\<forall>q. e \<le> q \<and> q < b \<longrightarrow> is_space (line ! q)) \<and>
                tok [] (drop (Suc e) line) = us @ [''&'']) \<Longrightarrow>
     \<exists>l' E. then_do (count_loop pre (g, l)) (count_finish pre)
               = Inr (g\<lparr>run_bg := True, argsc := 1 + int (k + length us)\<rparr>, l') \<and>
            length (loc_buf l') = length (line @ NUL # rest) \<and>
            0 < E \<and> E < length line \<and> take E (loc_buf l') = take E line \<and>
            loc_buf l' ! E = NUL \<and> is_space (line ! E) \<and> \<not> is_space (line ! (E - 1)) \<and>
            tok [] (drop (Suc E) line) = [''&'']"
proof (induction "length line - p" arbitrary: g l p b k e us rule: less_induct)
  case less
  let ?n = "length line"
  let ?buf = "line @ NUL # rest"
  let ?acc = "take (p - b) (drop b line)"
  note ptr = \<open>loc_ptr l = int p\<close> and bptr = \<open>loc_bptr l = int b\<close>
  note buf = \<open>loc_buf l = ?buf\<close>
  note nonblank = \<open>\<forall>q. b \<le> q \<and> q < p \<longrightarrow> \<not> is_space (line ! q)\<close>
  note toks = \<open>tok ?acc (drop p line) = us @ [''&'']\<close>
  note cnt = \<open>argsc g = 1 + int k\<close>
  note iv = \<open>loc_i l = int (p - b)\<close>
  note prev = \<open>0 < k \<longrightarrow> 0 < e \<and> e < b \<and> \<not> is_space (line ! (e - 1)) \<and>
                (\<forall>q. e \<le> q \<and> q < b \<longrightarrow> is_space (line ! q)) \<and>
                tok [] (drop (Suc e) line) = us @ [''&'']\<close>
  from \<open>p \<le> ?n\<close> have inb: "p < length ?buf" by simp
  have pk: "peek pre ?buf (int p) = Inr (?buf ! p)" using inb by (rule peek_nat)
  have acclen: "length ?acc = p - b" using \<open>p \<le> ?n\<close> by simp
  have accnth: "?acc ! 0 = line ! b" if "b < p"
    using that \<open>p \<le> ?n\<close> by simp
  show ?case
  proof (cases "p = ?n")
    case True
    \<comment> \<open>the line ends with the operator\<close>
    define acc where "acc = ?acc"
    from True toks have "tok acc [] = us @ [''&'']" by (simp add: acc_def)
    then have "us = [] \<and> acc = ''&''"
      by (cases "acc = []") (auto simp: Cons_eq_append_conv)
    then have us: "us = []" and acc: "?acc = ''&''" by (simp_all add: acc_def)
    from acc acclen have pb: "p = Suc b" by simp
    with acc accnth have amp: "line ! b = CHR ''&''" by (metis lessI nth_Cons_0)
    from us \<open>0 < k + length us\<close> have k: "0 < k" by simp
    with prev have e: "0 < e" "e < b" "\<not> is_space (line ! (e - 1))"
      "\<forall>q. e \<le> q \<and> q < b \<longrightarrow> is_space (line ! q)" "tok [] (drop (Suc e) line) = [''&'']"
      using us by auto
    from True have "?buf ! p = NUL" by (simp add: nth_buf_NUL)
    with pk ptr buf have loop: "count_loop pre (g, l) = Inr (g, l)"
      by (subst count_loop.simps) simp
    from pb True have bl: "b < ?n" by simp
    then have pkb: "peek pre ?buf (int b) = Inr (CHR ''&'')"
      using amp peek_nat [of b ?buf pre] by (simp add: nth_buf_line)
    have bck: "skip_back pre ?buf (int (b - 1)) = Inr (int (e - 1))"
    proof (rule skip_back_stop)
      show "e - 1 \<le> b - 1" using e(2) by simp
      show "b - 1 < length ?buf" using bl by simp
      show "\<not> is_space (?buf ! (e - 1))" using e(1,2,3) bl by (simp add: nth_buf_line)
      show "\<forall>q. e - 1 < q \<and> q \<le> b - 1 \<longrightarrow> is_space (?buf ! q)"
      proof (intro allI impI)
        fix q assume "e - 1 < q \<and> q \<le> b - 1"
        with e(1,2) have "e \<le> q \<and> q < b" by linarith
        with e(4) bl show "is_space (?buf ! q)" by (simp add: nth_buf_line)
      qed
    qed
    from e(1,2) have c1: "int (b - 1) = int b - 1" and c2: "int (e - 1) = int e - 1"
      by simp_all
    from bck have bck': "skip_back pre ?buf (int b - 1) = Inr (int e - 1)"
      by (simp only: c1 c2)
    from e(2) bl have pokee: "poke ?buf (int e) NUL = Inr (?buf[e := NUL])"
      by (simp add: poke_def)
    from pb iv have ishort: "\<not> int MAXARG \<le> loc_i l" by (simp add: MAXARG_def)
    from k cnt have big: "1 < argsc g" by simp
    have fin: "count_finish pre (g, l)
        = Inr (g\<lparr>run_bg := True, argsc := 1 + int k\<rparr>, l\<lparr>loc_bptr := int e, loc_buf := ?buf[e := NUL]\<rparr>)"
      using ishort big bptr buf pkb bck' pokee cnt
      by (simp add: count_finish_def)
    let ?l' = "l\<lparr>loc_bptr := int e, loc_buf := ?buf[e := NUL]\<rparr>"
    have "then_do (count_loop pre (g, l)) (count_finish pre)
        = Inr (g\<lparr>run_bg := True, argsc := 1 + int (k + length us)\<rparr>, ?l')"
      using loop fin us by simp
    moreover have "take e (loc_buf ?l') = take e line" using e(2) bl by simp
    moreover have "loc_buf ?l' ! e = NUL" using e(2) bl by simp
    moreover have "is_space (line ! e)" using e(2,4) by simp
    ultimately show ?thesis using e bl
      by (intro exI [of _ ?l'] exI [of _ e]) simp
  next
    case False
    with \<open>p \<le> ?n\<close> have lt: "p < ?n" by simp
    define c where "c = line ! p"
    from lt have bc: "?buf ! p = c" by (simp add: c_def nth_buf_line)
    from lt have "c \<in> set line" unfolding c_def by (rule nth_mem)
    with nul have cnul: "c \<noteq> NUL" by blast
    from lt have suf: "drop p line = c # drop (Suc p) line"
      by (simp add: c_def Cons_nth_drop_Suc)
    show ?thesis
    proof (cases "is_space c")
      case False
      let ?l2 = "l\<lparr>loc_ptr := loc_ptr l + 1, loc_i := loc_i l + 1\<rparr>"
      from pk ptr buf bc cnul False have step: "count_loop pre (g, l) = count_loop pre (g, ?l2)"
        by (subst count_loop.simps) simp
      from \<open>b \<le> p\<close> lt have "take (Suc p - b) (drop b line) = ?acc @ [c]"
        by (simp add: c_def Suc_diff_le take_Suc_conv_app_nth)
      with suf False toks have toks': "tok (take (Suc p - b) (drop b line)) (drop (Suc p) line) = us @ [''&'']"
        by simp
      have "\<exists>l' E. then_do (count_loop pre (g, ?l2)) (count_finish pre)
               = Inr (g\<lparr>run_bg := True, argsc := 1 + int (k + length us)\<rparr>, l') \<and>
            length (loc_buf l') = length ?buf \<and>
            0 < E \<and> E < ?n \<and> take E (loc_buf l') = take E line \<and>
            loc_buf l' ! E = NUL \<and> is_space (line ! E) \<and> \<not> is_space (line ! (E - 1)) \<and>
            tok [] (drop (Suc E) line) = [''&'']"
      proof (rule less.hyps [where p = "Suc p" and b = b and e = e])
        show "?n - Suc p < ?n - p" using lt by simp
        show "loc_ptr ?l2 = int (Suc p)" using ptr by simp
        show "loc_bptr ?l2 = int b" using bptr by simp
        show "b \<le> Suc p" using \<open>b \<le> p\<close> by simp
        show "Suc p \<le> ?n" using lt by simp
        show "loc_i ?l2 = int (Suc p - b)" using iv \<open>b \<le> p\<close> by simp
        show "loc_buf ?l2 = ?buf" using buf by simp
        show "\<forall>q. b \<le> q \<and> q < Suc p \<longrightarrow> \<not> is_space (line ! q)"
          using nonblank False by (auto simp: c_def less_Suc_eq)
        show "b = Suc p \<longrightarrow> Suc p = ?n \<or> \<not> is_space (line ! Suc p)"
          using \<open>b \<le> p\<close> by simp
        show "tok (take (Suc p - b) (drop b line)) (drop (Suc p) line) = us @ [''&'']"
          by (rule toks')
        show "\<forall>u \<in> set us. plain u" by fact
        show "argsc g = 1 + int k" by fact
        show "\<not> run_bg g" by fact
        show "0 < k + length us" by fact
        show "0 < k \<longrightarrow> 0 < e \<and> e < b \<and> \<not> is_space (line ! (e - 1)) \<and>
                (\<forall>q. e \<le> q \<and> q < b \<longrightarrow> is_space (line ! q)) \<and>
                tok [] (drop (Suc e) line) = us @ [''&'']" by fact
      qed
      with step show ?thesis by simp
    next
      case True
      note blank = this
      have bp: "b < p"
      proof (rule ccontr)
        assume "\<not> b < p"
        with \<open>b \<le> p\<close> have "b = p" by simp
        with less.prems(8) lt blank show False by (simp add: c_def)
      qed
      define acc where "acc = ?acc"
      from bp acclen have accne: "acc \<noteq> []" by (auto simp: acc_def)
      from toks suf blank accne have split: "acc # tok [] (drop (Suc p) line) = us @ [''&'']"
        by (simp add: acc_def)
      from bp lt have pkb: "peek pre ?buf (int b) = Inr (line ! b)"
        using peek_nat [of b ?buf pre] by (simp add: nth_buf_line)
      from bp accnth have acchd: "hd acc = line ! b"
        using accne by (simp add: acc_def hd_conv_nth)
      obtain p' where p': "Suc p \<le> p'" "p' \<le> ?n"
        "\<forall>q. Suc p \<le> q \<and> q < p' \<longrightarrow> is_space (line ! q)"
        "p' < ?n \<longrightarrow> \<not> is_space (line ! p')"
        "tok [] (drop (Suc p) line) = tok [] (drop p' line)"
        using lt first_nonblank [of "Suc p" line] by auto
      have blanks: "\<forall>q. p \<le> q \<and> q < p' \<longrightarrow> is_space (line ! q)"
      proof (intro allI impI)
        fix q assume "p \<le> q \<and> q < p'"
        then consider "q = p" | "Suc p \<le> q \<and> q < p'" by linarith
        then show "is_space (line ! q)" using blank p'(3) by cases (auto simp: c_def)
      qed
      show ?thesis
      proof (cases us)
        case Nil
        \<comment> \<open>the operator is followed by whitespace only\<close>
        with split have acc: "acc = ''&''" and none: "tok [] (drop (Suc p) line) = []" by simp_all
        from acc acclen have pb: "p = Suc b" by (simp add: acc_def)
        from acc acchd have amp: "line ! b = CHR ''&''" by simp
        from Nil \<open>0 < k + length us\<close> have k: "0 < k" by simp
        with prev Nil have e: "0 < e" "e < b" "\<not> is_space (line ! (e - 1))"
          "\<forall>q. e \<le> q \<and> q < b \<longrightarrow> is_space (line ! q)" "tok [] (drop (Suc e) line) = [''&'']"
          by auto
        from none have "\<forall>c \<in> set (drop (Suc p) line). is_space c"
          using tok_Nil_blank by blast
        then have tail: "\<forall>q. Suc p \<le> q \<and> q < ?n \<longrightarrow> is_space (line ! q)"
        proof (intro allI impI)
          fix q assume all: "\<forall>c \<in> set (drop (Suc p) line). is_space c" and q: "Suc p \<le> q \<and> q < ?n"
          then have "drop (Suc p) line ! (q - Suc p) \<in> set (drop (Suc p) line)"
            by (intro nth_mem) auto
          moreover from q have "drop (Suc p) line ! (q - Suc p) = line ! q" by simp
          ultimately show "is_space (line ! q)" using all by auto
        qed
        let ?buf1 = "?buf[e := NUL]"
        let ?buf2 = "?buf1[p := NUL]"
        let ?g1 = "g\<lparr>run_bg := True, argsc := argsc g - 1\<rparr>"
        let ?l1 = "l\<lparr>loc_bptr := int e, loc_buf := ?buf1\<rparr>"
        let ?l2 = "?l1\<lparr>loc_i := - 1 + 1, loc_bptr := int ?n, loc_ptr := int ?n - 1 + 1\<rparr>"
        let ?l3 = "?l2\<lparr>loc_ptr := int p, loc_buf := ?buf2\<rparr>"
        have bck: "skip_back pre ?buf (int (b - 1)) = Inr (int (e - 1))"
        proof (rule skip_back_stop)
          show "e - 1 \<le> b - 1" using e(2) by simp
          show "b - 1 < length ?buf" using bp lt by simp
          show "\<not> is_space (?buf ! (e - 1))" using e(1,2,3) bp lt by (simp add: nth_buf_line)
          show "\<forall>q. e - 1 < q \<and> q \<le> b - 1 \<longrightarrow> is_space (?buf ! q)"
          proof (intro allI impI)
            fix q assume "e - 1 < q \<and> q \<le> b - 1"
            with e(1,2) have "e \<le> q \<and> q < b" by linarith
            with e(4) bp lt show "is_space (?buf ! q)" by (simp add: nth_buf_line)
          qed
        qed
        from e(1,2) have c1: "int (b - 1) = int b - 1" and c2: "int (e - 1) = int e - 1"
          by simp_all
        from bck have bck': "skip_back pre ?buf (int b - 1) = Inr (int e - 1)"
          by (simp only: c1 c2)
        from e(2) bp lt have pokee: "poke ?buf (int e) NUL = Inr ?buf1"
          by (simp add: poke_def)
        have tokres: "count_token pre (g, l) = Inr (?g1, ?l1)"
          using bptr buf pkb amp bck' pokee by (simp add: count_token_def)
        have buf1q: "?buf1 ! q = ?buf ! q" if "e < q" for q
          using that by simp
        have fwd: "skip_fwd pre ?buf1 (int p, int p + 1) = Inr (int ?n, if p = ?n then int p + 1 else int ?n)"
        proof (rule skip_fwd_spec)
          show "p \<le> ?n" using lt by simp
          show "?n < length ?buf1" by simp
          show "\<forall>q. p \<le> q \<and> q < ?n \<longrightarrow> is_space (?buf1 ! q)"
          proof (intro allI impI)
            fix q assume q: "p \<le> q \<and> q < ?n"
            then consider "q = p" | "Suc p \<le> q \<and> q < ?n" by linarith
            then have "is_space (line ! q)" using blank tail by cases (auto simp: c_def)
            with q e(2) bp show "is_space (?buf1 ! q)" by (simp add: nth_buf_line)
          qed
          show "\<not> is_space (?buf1 ! ?n)" using e(2) bp lt by (simp add: nth_buf_NUL)
        qed
        with lt have fwd': "skip_fwd pre ?buf1 (int p, int p + 1) = Inr (int ?n, int ?n)" by simp
        from iv pb have ishort: "\<not> int MAXARG \<le> loc_i l" by (simp add: MAXARG_def)
        have step: "count_loop pre (g, l) = count_loop pre (?g1, ?l2)"
          using pk ptr buf bc cnul blank ishort tokres fwd'
          by (subst count_loop.simps) simp
        have pkn: "peek pre ?buf1 (int ?n) = Inr NUL"
          using e(2) bp lt peek_nat [of ?n ?buf1 pre] by (simp add: nth_buf_NUL)
        have loop: "count_loop pre (?g1, ?l2) = Inr (?g1, ?l2)"
          using pkn by (subst count_loop.simps) simp
        have bck2: "skip_back pre ?buf1 (int (?n - 1)) = Inr (int b)"
        proof (rule skip_back_stop)
          show "b \<le> ?n - 1" using bp lt by simp
          show "?n - 1 < length ?buf1" by simp
          show "\<not> is_space (?buf1 ! b)"
            using e(2) bp lt amp by (simp add: nth_buf_line is_space_def)
          show "\<forall>q. b < q \<and> q \<le> ?n - 1 \<longrightarrow> is_space (?buf1 ! q)"
          proof (intro allI impI)
            fix q assume q: "b < q \<and> q \<le> ?n - 1"
            with pb lt consider "q = p" | "Suc p \<le> q \<and> q < ?n" by linarith
            then have "is_space (line ! q)" using blank tail by cases (auto simp: c_def)
            moreover from q lt have "q < ?n" by linarith
            ultimately show "is_space (?buf1 ! q)" using q e(2) by (simp add: nth_buf_line)
          qed
        qed
        from lt have c3: "int (?n - 1) = int ?n - 1" by simp
        from bck2 have bck2': "skip_back pre ?buf1 (int ?n - 1) = Inr (int b)"
          by (simp only: c3)
        have nb: "nat (int b + 1) = Suc b" by arith
        from pb lt have pokep: "poke ?buf1 (int b + 1) NUL = Inr ?buf2"
          by (simp add: poke_def nb)
        have notop: "\<not> (1 < argsc ?g1 \<and> (NUL = CHR ''>'' \<or> NUL = CHR ''<''))"
          "\<not> (1 < argsc ?g1 \<and> NUL = CHR ''&'')"
          by simp_all
        have fin: "count_finish pre (?g1, ?l2)
            = Inr (g\<lparr>run_bg := True, argsc := 1 + int k\<rparr>, ?l3)"
          using pkn bck2' pokep cnt pb
          by (cases "Suc 0 < k") (simp_all add: count_finish_def MAXARG_def Let_def)
        have "then_do (count_loop pre (g, l)) (count_finish pre)
            = Inr (g\<lparr>run_bg := True, argsc := 1 + int (k + length us)\<rparr>, ?l3)"
          using step loop fin Nil by simp
        moreover have "take e (loc_buf ?l3) = take e line" using e(2) bp lt by simp
        moreover have "loc_buf ?l3 ! e = NUL" using e(2) bp lt by simp
        moreover have "is_space (line ! e)" using e(2,4) by simp
        ultimately show ?thesis using e bp lt
          by (intro exI [of _ ?l3] exI [of _ e]) simp
      next
        case (Cons u us')
        with split have acc: "acc = u" and more: "tok [] (drop (Suc p) line) = us' @ [''&'']"
          by simp_all
        from Cons less.prems(10) have pu: "plain u" "\<forall>u \<in> set us'. plain u" by simp_all
        from pu(1) acc acclen iv have ishort: "\<not> int MAXARG \<le> loc_i l"
          by (simp add: plain_def acc_def)
        from pu(1) acc acchd have hd: "line ! b \<noteq> CHR ''>''" "line ! b \<noteq> CHR ''<''"
          "line ! b \<noteq> CHR ''&''"
          using plain_hd [of u] by simp_all
        let ?g1 = "g\<lparr>argsc := argsc g + 1\<rparr>"
        have tokres: "count_token pre (g, l) = Inr (?g1, l)"
          using bptr buf pkb hd by (simp add: count_token_def)
        from more p'(5) have more': "tok [] (drop p' line) = us' @ [''&'']" by simp
        have p'lt: "p' < ?n"
        proof (rule ccontr)
          assume "\<not> p' < ?n"
          with p'(2) have "drop p' line = []" by simp
          with more' show False by simp
        qed
        have fwd: "skip_fwd pre ?buf (int p, int p + 1) = Inr (int p', if p = p' then int p + 1 else int p')"
        proof (rule skip_fwd_spec)
          show "p \<le> p'" using p'(1) by simp
          show "p' < length ?buf" using p'lt by simp
          show "\<forall>q. p \<le> q \<and> q < p' \<longrightarrow> is_space (?buf ! q)"
            using blanks p'lt by (simp add: nth_buf_line)
          show "\<not> is_space (?buf ! p')" using p'(4) p'lt by (simp add: nth_buf_line)
        qed
        with p'(1) have fwd': "skip_fwd pre ?buf (int p, int p + 1) = Inr (int p', int p')" by simp
        let ?l2 = "l\<lparr>loc_i := - 1 + 1, loc_bptr := int p', loc_ptr := int p' - 1 + 1\<rparr>"
        have step: "count_loop pre (g, l) = count_loop pre (?g1, ?l2)"
          using pk ptr buf bc cnul blank ishort tokres fwd'
          by (subst count_loop.simps) simp
        have "\<exists>l' E. then_do (count_loop pre (?g1, ?l2)) (count_finish pre)
               = Inr (?g1\<lparr>run_bg := True, argsc := 1 + int (Suc k + length us')\<rparr>, l') \<and>
            length (loc_buf l') = length ?buf \<and>
            0 < E \<and> E < ?n \<and> take E (loc_buf l') = take E line \<and>
            loc_buf l' ! E = NUL \<and> is_space (line ! E) \<and> \<not> is_space (line ! (E - 1)) \<and>
            tok [] (drop (Suc E) line) = [''&'']"
        proof (rule less.hyps [where p = p' and b = p' and e = p])
          show "?n - p' < ?n - p" using p'(1) p'lt by simp
          show "loc_ptr ?l2 = int p'" by simp
          show "loc_bptr ?l2 = int p'" by simp
          show "p' \<le> p'" by simp
          show "p' \<le> ?n" by (rule p'(2))
          show "loc_i ?l2 = int (p' - p')" by simp
          show "loc_buf ?l2 = ?buf" using buf by simp
          show "\<forall>q. p' \<le> q \<and> q < p' \<longrightarrow> \<not> is_space (line ! q)" by auto
          show "p' = p' \<longrightarrow> p' = ?n \<or> \<not> is_space (line ! p')" using p'(4) p'lt by simp
          show "tok (take (p' - p') (drop p' line)) (drop p' line) = us' @ [''&'']"
            using more' by simp
          show "\<forall>u \<in> set us'. plain u" by (rule pu(2))
          show "argsc ?g1 = 1 + int (Suc k)" using cnt by simp
          show "\<not> run_bg ?g1" using \<open>\<not> run_bg g\<close> by simp
          show "0 < Suc k + length us'" by simp
          show "0 < Suc k \<longrightarrow> 0 < p \<and> p < p' \<and> \<not> is_space (line ! (p - 1)) \<and>
                (\<forall>q. p \<le> q \<and> q < p' \<longrightarrow> is_space (line ! q)) \<and>
                tok [] (drop (Suc p) line) = us' @ [''&'']"
            using bp p'(1) nonblank blanks more by simp
        qed
        with step Cons show ?thesis by simp
      qed
    qed
  qed
qed

lemma filled_length: "k \<le> length ws \<Longrightarrow> length (filled ws k) = Suc (length ws)"
  by (simp add: filled_def)

lemma filled_nth: "k < length ws \<Longrightarrow> filled ws k ! k = Ptr (replicate MAXARG NUL)"
  by (simp add: filled_def nth_append)

lemma filled_update:
  assumes "k < length ws"
  shows "(filled ws k)[k := Ptr (padded (ws ! k))] = filled ws (Suc k)"
proof -
  from assms have "length ws - k = Suc (length ws - Suc k)" by simp
  then have r: "replicate (length ws - k) (Ptr (replicate MAXARG NUL))
      = Ptr (replicate MAXARG NUL) # replicate (length ws - Suc k) (Ptr (replicate MAXARG NUL))"
    by simp
  from assms have t: "take (Suc k) ws = take k ws @ [ws ! k]"
    by (simp add: take_Suc_conv_app_nth)
  from assms have "length (map (\<lambda>w. Ptr (padded w)) (take k ws)) = k" by simp
  then show ?thesis
    unfolding filled_def r t by (simp add: list_update_append)
qed

lemma filled_all: "filled ws (length ws) = map (\<lambda>w. Ptr (padded w)) ws @ [Null]"
  by (simp add: filled_def)

lemma filled_null: "(filled ws (length ws))[length ws := Null] = filled ws (length ws)"
  by (simp add: filled_def list_update_append)

lemma copy_arg_filled:
  assumes a: "args g = Ptr (filled ws k)" and k: "k < length ws"
    and w: "take j (drop b buf) = ws ! k" and j: "b + j \<le> length buf" "j < MAXARG"
  shows "copy_arg g (int k) buf (int b) (int j) = Inr (g\<lparr>args := Ptr (filled ws (Suc k))\<rparr>)"
proof -
  from j have "memcpy_from buf (int b) (int j) (replicate MAXARG NUL)
      = Inr (take j (drop b buf) @ replicate (MAXARG - j) NUL)"
    by (simp add: memcpy_from_def)
  moreover from w j have "length (ws ! k) = j"
    by (metis length_take length_drop min.absorb2 add_diff_cancel_left' diff_le_mono)
  ultimately have "memcpy_from buf (int b) (int j) (replicate MAXARG NUL) = Inr (padded (ws ! k))"
    using w by (simp add: padded_def)
  with a k show ?thesis
    by (simp add: copy_arg_def filled_length filled_nth filled_update)
qed

lemma fill_pass:
  assumes nul: "NUL \<notin> set line" and ne: "line \<noteq> []" and lastnb: "\<not> is_space (last line)"
    and pl: "\<forall>u \<in> set ws. plain u"
  shows "loc_ptr l = int p \<Longrightarrow> loc_bptr l = int b \<Longrightarrow> b \<le> p \<Longrightarrow> p \<le> length line \<Longrightarrow>
     loc_j l = int (p - b) \<Longrightarrow> loc_i l = int k \<Longrightarrow> loc_buf l = line @ NUL # rest \<Longrightarrow>
     (\<forall>q. b \<le> q \<and> q < p \<longrightarrow> \<not> is_space (line ! q)) \<Longrightarrow>
     (b = p \<longrightarrow> p = length line \<or> \<not> is_space (line ! p)) \<Longrightarrow>
     tok (take (p - b) (drop b line)) (drop p line) = drop k ws \<Longrightarrow> k < length ws \<Longrightarrow>
     args g = Ptr (filled ws k) \<Longrightarrow>
     \<exists>l'. then_do (fill_loop pre (g, l)) (fill_finish pre)
            = Inr (g\<lparr>args := Ptr (filled ws (length ws))\<rparr>, l')"
proof (induction "length line - p" arbitrary: g l p b k rule: less_induct)
  case less
  let ?n = "length line"
  let ?buf = "line @ NUL # rest"
  let ?acc = "take (p - b) (drop b line)"
  note ptr = \<open>loc_ptr l = int p\<close> and bptr = \<open>loc_bptr l = int b\<close>
  note buf = \<open>loc_buf l = ?buf\<close>
  note nonblank = \<open>\<forall>q. b \<le> q \<and> q < p \<longrightarrow> \<not> is_space (line ! q)\<close>
  note toks = \<open>tok ?acc (drop p line) = drop k ws\<close>
  note jv = \<open>loc_j l = int (p - b)\<close> and iv = \<open>loc_i l = int k\<close>
  note vec = \<open>args g = Ptr (filled ws k)\<close>
  note klt = \<open>k < length ws\<close>
  from \<open>p \<le> ?n\<close> have inb: "p < length ?buf" by simp
  have pk: "peek pre ?buf (int p) = Inr (?buf ! p)" using inb by (rule peek_nat)
  define acc where "acc = ?acc"
  have acclen: "length acc = p - b" using \<open>p \<le> ?n\<close> by (simp add: acc_def)
  have accbuf: "take (p - b) (drop b ?buf) = acc"
    using \<open>p \<le> ?n\<close> \<open>b \<le> p\<close> by (simp add: acc_def)
  from klt have dk: "drop k ws = ws ! k # drop (Suc k) ws"
    by (simp add: Cons_nth_drop_Suc)
  have first: "acc = ws ! k \<Longrightarrow> b < p \<and> peek pre ?buf (int b) = Inr (line ! b) \<and>
      line ! b \<noteq> CHR ''>'' \<and> line ! b \<noteq> CHR ''<'' \<and> p - b < MAXARG"
  proof -
    assume a: "acc = ws ! k"
    from klt pl have p: "plain (ws ! k)" by simp
    with a acclen have "length acc \<noteq> 0" "p - b < MAXARG" by (auto simp: plain_def)
    with acclen have "b < p" "p - b < MAXARG" by simp_all
    moreover from this \<open>p \<le> ?n\<close> have "hd acc = line ! b"
      using acclen by (simp add: acc_def hd_conv_nth)
    moreover from \<open>b < p\<close> \<open>p \<le> ?n\<close> have "peek pre ?buf (int b) = Inr (line ! b)"
      using peek_nat [of b ?buf pre] by (simp add: nth_buf_line)
    ultimately show ?thesis using plain_hd [OF p] a by simp
  qed
  show ?case
  proof (cases "p = ?n")
    case True
    with toks have "tok acc [] = drop k ws" by (simp add: acc_def)
    with dk have acc: "acc = ws ! k" and lastk: "drop (Suc k) ws = []"
      by (auto split: if_splits)
    from lastk klt have k: "Suc k = length ws" by simp
    from first [OF acc] have f: "b < p" "peek pre ?buf (int b) = Inr (line ! b)"
      "line ! b \<noteq> CHR ''>''" "line ! b \<noteq> CHR ''<''" "p - b < MAXARG" by simp_all
    from True have "?buf ! p = NUL" by (simp add: nth_buf_NUL)
    with pk ptr buf have loop: "fill_loop pre (g, l) = Inr (g, l)"
      by (subst fill_loop.simps) simp
    have cp: "copy_arg g (int k) ?buf (int b) (int (p - b)) = Inr (g\<lparr>args := Ptr (filled ws (Suc k))\<rparr>)"
      using vec klt accbuf acc f(1,5) \<open>p \<le> ?n\<close> by (intro copy_arg_filled) simp_all
    have nl: "null_arg (g\<lparr>args := Ptr (filled ws (Suc k))\<rparr>) (int k + 1)
        = Inr (g\<lparr>args := Ptr (filled ws (length ws))\<rparr>)"
    proof -
      have "nat (int k + 1) = Suc k" by arith
      with k filled_null [of ws] show ?thesis
        by (simp add: null_arg_def filled_length)
    qed
    have "fill_finish pre (g, l) = Inr (g\<lparr>args := Ptr (filled ws (length ws))\<rparr>, l)"
      using bptr buf jv iv f cp nl by (simp add: fill_finish_def)
    with loop show ?thesis by simp
  next
    case False
    with \<open>p \<le> ?n\<close> have lt: "p < ?n" by simp
    define c where "c = line ! p"
    from lt have bc: "?buf ! p = c" by (simp add: c_def nth_buf_line)
    from lt have "c \<in> set line" unfolding c_def by (rule nth_mem)
    with nul have cnul: "c \<noteq> NUL" by blast
    from lt have suf: "drop p line = c # drop (Suc p) line"
      by (simp add: c_def Cons_nth_drop_Suc)
    show ?thesis
    proof (cases "is_space c")
      case False
      let ?l2 = "l\<lparr>loc_ptr := loc_ptr l + 1, loc_j := loc_j l + 1\<rparr>"
      from pk ptr buf bc cnul False have step: "fill_loop pre (g, l) = fill_loop pre (g, ?l2)"
        by (subst fill_loop.simps) simp
      from \<open>b \<le> p\<close> lt have "take (Suc p - b) (drop b line) = ?acc @ [c]"
        by (simp add: c_def Suc_diff_le take_Suc_conv_app_nth)
      with suf False toks have toks': "tok (take (Suc p - b) (drop b line)) (drop (Suc p) line) = drop k ws"
        by simp
      have "\<exists>l'. then_do (fill_loop pre (g, ?l2)) (fill_finish pre)
            = Inr (g\<lparr>args := Ptr (filled ws (length ws))\<rparr>, l')"
      proof (rule less.hyps [where p = "Suc p" and b = b and k = k])
        show "?n - Suc p < ?n - p" using lt by simp
        show "loc_ptr ?l2 = int (Suc p)" using ptr by simp
        show "loc_bptr ?l2 = int b" using bptr by simp
        show "b \<le> Suc p" using \<open>b \<le> p\<close> by simp
        show "Suc p \<le> ?n" using lt by simp
        show "loc_j ?l2 = int (Suc p - b)" using jv \<open>b \<le> p\<close> by simp
        show "loc_i ?l2 = int k" using iv by simp
        show "loc_buf ?l2 = ?buf" using buf by simp
        show "\<forall>q. b \<le> q \<and> q < Suc p \<longrightarrow> \<not> is_space (line ! q)"
          using nonblank False by (auto simp: c_def less_Suc_eq)
        show "b = Suc p \<longrightarrow> Suc p = ?n \<or> \<not> is_space (line ! Suc p)"
          using \<open>b \<le> p\<close> by simp
        show "tok (take (Suc p - b) (drop b line)) (drop (Suc p) line) = drop k ws"
          by (rule toks')
        show "k < length ws" by fact
        show "args g = Ptr (filled ws k)" by fact
      qed
      with step show ?thesis by simp
    next
      case True
      note blank = this
      have bp: "b < p"
      proof (rule ccontr)
        assume "\<not> b < p"
        with \<open>b \<le> p\<close> have "b = p" by simp
        with less.prems(9) lt blank show False by (simp add: c_def)
      qed
      from bp acclen have accne: "acc \<noteq> []" by auto
      from toks suf blank accne have "acc # tok [] (drop (Suc p) line) = drop k ws"
        by (simp add: acc_def)
      with dk have acc: "acc = ws ! k" and more: "tok [] (drop (Suc p) line) = drop (Suc k) ws"
        by simp_all
      from first [OF acc] have f: "peek pre ?buf (int b) = Inr (line ! b)"
        "line ! b \<noteq> CHR ''>''" "line ! b \<noteq> CHR ''<''" "p - b < MAXARG" by simp_all
      have tailne: "drop (Suc p) line \<noteq> []"
      proof
        assume "drop (Suc p) line = []"
        with lt have "Suc p = ?n" by simp
        then have "?n - 1 = p" by simp
        moreover from ne have "last line = line ! (?n - 1)" by (rule last_conv_nth)
        ultimately have "last line = line ! p" by simp
        with lastnb blank show False by (simp add: c_def)
      qed
      then have "last (drop (Suc p) line) = last line" by simp
      with lastnb tailne have "tok [] (drop (Suc p) line) \<noteq> []"
        by (intro tok_last_nonblank) simp_all
      with more have k': "Suc k < length ws" by simp
      obtain p' where p': "Suc p \<le> p'" "p' \<le> ?n"
        "\<forall>q. Suc p \<le> q \<and> q < p' \<longrightarrow> is_space (line ! q)"
        "p' < ?n \<longrightarrow> \<not> is_space (line ! p')"
        "tok [] (drop (Suc p) line) = tok [] (drop p' line)"
        using lt first_nonblank [of "Suc p" line] by auto
      from more p'(5) have more': "tok [] (drop p' line) = drop (Suc k) ws" by simp
      have p'lt: "p' < ?n"
      proof (rule ccontr)
        assume "\<not> p' < ?n"
        with p'(2) have "drop p' line = []" by simp
        with more' k' show False by simp
      qed
      have blanks: "\<forall>q. p \<le> q \<and> q < p' \<longrightarrow> is_space (line ! q)"
      proof (intro allI impI)
        fix q assume "p \<le> q \<and> q < p'"
        then consider "q = p" | "Suc p \<le> q \<and> q < p'" by linarith
        then show "is_space (line ! q)" using blank p'(3) by cases (auto simp: c_def)
      qed
      let ?g1 = "g\<lparr>args := Ptr (filled ws (Suc k))\<rparr>"
      let ?l1 = "l\<lparr>loc_i := loc_i l + 1\<rparr>"
      have cp: "copy_arg g (int k) ?buf (int b) (int (p - b)) = Inr ?g1"
        using vec klt accbuf acc bp f(4) \<open>p \<le> ?n\<close> by (intro copy_arg_filled) simp_all
      have tokres: "fill_token pre (g, l) = Inr (?g1, ?l1)"
        using bptr buf jv iv f cp by (simp add: fill_token_def)
      have fwd: "skip_fwd pre ?buf (int p, int p + 1) = Inr (int p', if p = p' then int p + 1 else int p')"
      proof (rule skip_fwd_spec)
        show "p \<le> p'" using p'(1) by simp
        show "p' < length ?buf" using p'lt by simp
        show "\<forall>q. p \<le> q \<and> q < p' \<longrightarrow> is_space (?buf ! q)"
          using blanks p'lt by (simp add: nth_buf_line)
        show "\<not> is_space (?buf ! p')" using p'(4) p'lt by (simp add: nth_buf_line)
      qed
      with p'(1) have fwd': "skip_fwd pre ?buf (int p, int p + 1) = Inr (int p', int p')" by simp
      let ?l2 = "?l1\<lparr>loc_j := - 1 + 1, loc_bptr := int p', loc_ptr := int p' - 1 + 1\<rparr>"
      have step: "fill_loop pre (g, l) = fill_loop pre (?g1, ?l2)"
        using pk ptr buf bc cnul blank tokres fwd'
        by (subst fill_loop.simps) simp
      have "\<exists>l'. then_do (fill_loop pre (?g1, ?l2)) (fill_finish pre)
            = Inr (?g1\<lparr>args := Ptr (filled ws (length ws))\<rparr>, l')"
      proof (rule less.hyps [where p = p' and b = p' and k = "Suc k"])
        show "?n - p' < ?n - p" using p'(1) p'lt by simp
        show "loc_ptr ?l2 = int p'" by simp
        show "loc_bptr ?l2 = int p'" by simp
        show "p' \<le> p'" by simp
        show "p' \<le> ?n" by (rule p'(2))
        show "loc_j ?l2 = int (p' - p')" by simp
        show "loc_i ?l2 = int (Suc k)" using iv by simp
        show "loc_buf ?l2 = ?buf" using buf by simp
        show "\<forall>q. p' \<le> q \<and> q < p' \<longrightarrow> \<not> is_space (line ! q)" by auto
        show "p' = p' \<longrightarrow> p' = ?n \<or> \<not> is_space (line ! p')" using p'(4) p'lt by simp
        show "tok (take (p' - p') (drop p' line)) (drop p' line) = drop (Suc k) ws"
          using more' by simp
        show "Suc k < length ws" by (rule k')
        show "args ?g1 = Ptr (filled ws (Suc k))" by simp
      qed
      with step show ?thesis by simp
    qed
  qed
qed

lemma tok_set: "t \<in> set (tok acc s) \<Longrightarrow> set t \<subseteq> set acc \<union> set s"
proof (induction s arbitrary: acc)
  case Nil
  then show ?case by (auto split: if_splits)
next
  case (Cons c cs)
  show ?case
  proof (cases "is_space c")
    case True
    with Cons.prems have "t = acc \<or> t \<in> set (tok [] cs)"
      by (auto split: if_splits)
    then show ?thesis
    proof
      assume "t = acc" then show ?thesis by auto
    next
      assume "t \<in> set (tok [] cs)"
      then have "set t \<subseteq> set [] \<union> set cs" by (rule Cons.IH)
      then show ?thesis by auto
    qed
  next
    case False
    with Cons.prems have "t \<in> set (tok (acc @ [c]) cs)" by simp
    then have "set t \<subseteq> set (acc @ [c]) \<union> set cs" by (rule Cons.IH)
    then show ?thesis by auto
  qed
qed

lemma argv_strings_filled:
  "\<forall>w \<in> set ws. NUL \<notin> set w \<Longrightarrow>
     argv_strings (map (\<lambda>w. Ptr (padded w)) ws @ [Null]) = Some ws"
  by (induction ws) (simp_all add: padded_def cstr_padded)

section \<open>Claims about the tokenizer\<close>

text \<open>
  In the theorems below the buffer passed to \<^const>\<open>create_args\<close> is \<open>line @ NUL # rest\<close>: the
  line as \<^verbatim>\<open>input_start\<close> terminates it, followed by whatever the array holds after the
  terminator. \<open>avail\<close> is the number of allocations the allocator grants.
\<close>

text \<open>
  Claim C2 as stated (parsing \<^verbatim>\<open>sort < in.txt > out.txt\<close> succeeds) fails: an operator
  followed by whitespace is the error \<^verbatim>\<open>No whitespaces after '<' operator!\<close>.
\<close>

theorem parse_spaced_redirection_counterexample:
  "create_args 5 [] (''sort < in.txt > out.txt'' @ [NUL]) shell_init = Inl (NoWhitespaceAfter CHR ''<'')"
  by (simp add: create_args_eval shell_init_def cong: then_do_weak_cong)

text \<open>
  Claim C2, amended. With the paths written directly after the operators, parsing
  \<^verbatim>\<open>sort <in.txt >out.txt\<close> succeeds and yields the argument list \<^verbatim>\<open>["sort"]\<close>, input
  redirection \<^verbatim>\<open>in.txt\<close>, output redirection \<^verbatim>\<open>out.txt\<close> and no background flag.
\<close>

theorem parse_redirections:
  assumes "2 \<le> avail" and "redirs_cleared g"
  shows "\<exists>g'. create_args avail pre (''sort <in.txt >out.txt'' @ NUL # rest) g = Inr g' \<and>
           command_of g' = Some \<lparr>arguments = [''sort''], input_redirect = Some ''in.txt'',
                                  output_redirect = Some ''out.txt'', background = False\<rparr>"
proof -
  from assms have "create_args avail pre (''sort <in.txt >out.txt'' @ NUL # rest) g = 
   Inr (g\<lparr>run_bg := False, argsc := 2, args := Ptr [Ptr (''sort'' @ replicate 252 NUL), Null],
          redir_f := ''in.txt'' @ NUL # drop 7 (redir_f g),
          redir_t := ''out.txt'' @ NUL # drop 8 (redir_t g)\<rparr>)"
    by (simp add: create_args_eval redirs_cleared_def cong: then_do_weak_cong)
  moreover have "command_of (g\<lparr>run_bg := False, argsc := 2, args := Ptr [Ptr (''sort'' @ replicate 252 NUL), Null],
          redir_f := ''in.txt'' @ NUL # drop 7 (redir_f g),
          redir_t := ''out.txt'' @ NUL # drop 8 (redir_t g)\<rparr>)
     = Some \<lparr>arguments = [''sort''], input_redirect = Some ''in.txt'',
                                  output_redirect = Some ''out.txt'', background = False\<rparr>"
    by (simp add: command_of_def redirect_def NUL_def)
  ultimately show ?thesis by simp
qed

theorem parse_redirections_witness:
  "\<exists>g'. create_args 2 [] (''sort <in.txt >out.txt'' @ [NUL]) shell_init = Inr g' \<and>
         command_of g' = Some \<lparr>arguments = [''sort''], input_redirect = Some ''in.txt'',
                                output_redirect = Some ''out.txt'', background = False\<rparr>"
proof -
  have h1: "(2::nat) \<le> 2" by simp
  have h2: "redirs_cleared shell_init"
    by (simp add: redirs_cleared_def shell_init_def MAXARG_def)
  from parse_redirections [OF h1 h2, of "[]" "[]"] show ?thesis by simp
qed

text \<open>
  Claim C3 (parsing \<^verbatim>\<open>echo >\<close> is a parse error), evaluated on the code: the function
  returns 0 with the argument list \<^verbatim>\<open>["echo"]\<close> and no redirection; the operator at the
  end of the line is dropped.
\<close>

theorem parse_trailing_operator:
  "create_args 5 [] (''echo >'' @ [NUL]) shell_init
     = Inr (shell_init\<lparr>argsc := 2, args := Ptr [Ptr (''echo'' @ replicate 252 NUL), Null]\<rparr>) \<and>
   command_of (shell_init\<lparr>argsc := 2, args := Ptr [Ptr (''echo'' @ replicate 252 NUL), Null]\<rparr>)
     = Some \<lparr>arguments = [''echo''], input_redirect = None, output_redirect = None, background = False\<rparr>"
  by (simp add: create_args_eval shell_init_def command_of_def redirect_def Cons_replicate cong: then_do_weak_cong)

text \<open>The same operator followed by a blank is rejected, whatever follows.\<close>

lemma parse_operator_then_blank:
  "create_args avail pre (''echo > '' @ NUL # rest) g = Inl (NoWhitespaceAfter CHR ''>'')"
  by (simp add: create_args_eval cong: then_do_weak_cong)

text \<open>
  Claim C4 as stated (every line with a token of MAXARG bytes or more is rejected with
  \<^verbatim>\<open>Argument too long!\<close>) fails: on the line \<^verbatim>\<open>>\<close>, blank, 256 letters, the first pass
  meets the operator followed by whitespace first and the error is
  \<^verbatim>\<open>No whitespaces after '>' operator!\<close>. On the line \<^verbatim>\<open>&\<close>, blank, 256 letters, the scan
  of the case \<^verbatim>\<open>&\<close> reads the byte below the buffer; with no byte there to read, the
  access is out of bounds.
\<close>

theorem long_token_message_counterexample:
  "replicate 256 (CHR ''a'') \<in> set (tokens (''> '' @ replicate 256 (CHR ''a''))) \<and>
   MAXARG \<le> length (replicate 256 (CHR ''a'')) \<and>
   create_args 1 [NUL] (''> '' @ replicate 256 (CHR ''a'') @ [NUL]) shell_init
     = Inl (NoWhitespaceAfter CHR ''>'') \<and>
   message (NoWhitespaceAfter CHR ''>'') \<noteq> message ArgTooLong \<and>
   create_args 1 [] (''& '' @ replicate 256 (CHR ''a'') @ [NUL]) shell_init = Inl OutOfBounds"
proof -
  have "replicate 256 (CHR ''a'') \<in> set (tokens (''> '' @ replicate 256 (CHR ''a'')))"
    by (simp add: tokens_def is_space_def tok_nonblank)
  moreover have "create_args 1 [NUL] (''> '' @ replicate 256 (CHR ''a'') @ [NUL]) shell_init
     = Inl (NoWhitespaceAfter CHR ''>'')"
    by (simp add: create_args_eval shell_init_def cong: then_do_weak_cong)
  moreover have "create_args 1 [] (''& '' @ replicate 256 (CHR ''a'') @ [NUL]) shell_init
     = Inl OutOfBounds"
    by (simp add: create_args_eval shell_init_def cong: then_do_weak_cong)
  ultimately show ?thesis by (simp add: MAXARG_def)
qed

text \<open>
  Claim C4, amended. For every line that has a token of at least MAXARG bytes,
  \<^verbatim>\<open>create_args\<close> returns an error and no argument vector. When the byte below the buffer
  stops the backward scan, the error has the value 1: it is \<^verbatim>\<open>Argument too long!\<close>, or
  \<^verbatim>\<open>No whitespaces after\<close> an operator when the line also has a token that is a lone
  \<^verbatim>\<open>>\<close> or \<^verbatim>\<open><\<close>. The only other outcome is the access below the buffer, when the byte
  there does not stop the scan.
\<close>

theorem long_token_rejected:
  assumes nul: "NUL \<notin> set line" and long: "\<exists>t \<in> set (tokens line). MAXARG \<le> length t"
  shows "\<exists>e. create_args avail pre (line @ NUL # rest) g = Inl e \<and>
           (e = ArgTooLong \<or>
            (e = NoWhitespaceAfter CHR ''>'' \<and> ''>'' \<in> set (tokens line)) \<or>
            (e = NoWhitespaceAfter CHR ''<'' \<and> ''<'' \<in> set (tokens line)) \<or>
            (e = OutOfBounds \<and> \<not> guarded pre)) \<and>
           (guarded pre \<longrightarrow> is_parse_error e)"
proof -
  let ?buf = "line @ NUL # rest"
  obtain p0 where p0: "p0 \<le> length line" "\<forall>q. 0 \<le> q \<and> q < p0 \<longrightarrow> is_space (line ! q)"
    "p0 < length line \<longrightarrow> \<not> is_space (line ! p0)" "tok [] (drop 0 line) = tok [] (drop p0 line)"
    using first_nonblank [of 0 line] by auto
  have bufq: "?buf ! q = (line @ [NUL]) ! q" if "q \<le> length line" for q
    using that by (simp add: nth_append)
  have blanks: "\<forall>q. 0 \<le> q \<and> q < p0 \<longrightarrow> is_space (?buf ! q)"
    using p0(1,2) by (simp add: nth_append)
  have stop: "\<not> is_space (?buf ! p0)"
  proof (cases "p0 < length line")
    case True
    with p0(3) show ?thesis by (simp add: nth_append)
  next
    case False
    with p0(1) have "p0 = length line" by simp
    then show ?thesis by (simp add: is_space_def NUL_def)
  qed
  have "skip_fwd pre ?buf (int 0, 0) = Inr (int p0, if 0 = p0 then 0 else int p0)"
    using p0(1) blanks stop by (intro skip_fwd_spec) auto
  then have skip: "skip_fwd pre ?buf (0, 0) = Inr (int p0, int p0)"
    by (auto split: if_splits)
  let ?g = "g\<lparr>run_bg := False, argsc := 1\<rparr>"
  let ?l = "\<lparr>loc_buf = ?buf, loc_ptr = int p0, loc_bptr = int p0, loc_i = 0, loc_j = 0\<rparr>"
  have out: "long_outcome pre (tok (take (p0 - p0) (drop p0 line)) (drop p0 line)) (count_loop pre (?g, ?l))"
  proof (rule count_loop_long [OF nul, where rest = rest])
    show "\<forall>q. p0 \<le> q \<and> q \<le> length line \<longrightarrow> loc_buf ?l ! q = (line @ [NUL]) ! q"
      using bufq by simp
    show "\<exists>t\<in>set (tok (take (p0 - p0) (drop p0 line)) (drop p0 line)). MAXARG \<le> length t"
      using long p0(4) by (simp add: tokens_def)
  qed (use p0(1) in auto)
  then have out': "long_outcome pre (tokens line) (count_loop pre (?g, ?l))"
    using p0(4) by (simp add: tokens_def)
  have "\<exists>e. create_args avail pre ?buf g = Inl e \<and>
           (e = ArgTooLong \<or>
            (e = NoWhitespaceAfter CHR ''>'' \<and> ''>'' \<in> set (tokens line)) \<or>
            (e = NoWhitespaceAfter CHR ''<'' \<and> ''<'' \<in> set (tokens line)) \<or>
            (e = OutOfBounds \<and> \<not> guarded pre))"
  proof (cases "count_loop pre (?g, ?l)")
    case (Inl e)
    with skip have "create_args avail pre ?buf g = Inl e"
      by (simp add: create_args_def)
    with out' Inl show ?thesis by (simp add: long_outcome_def)
  next
    case (Inr gl)
    with out' have "int MAXARG \<le> loc_i (snd gl)" by (simp add: long_outcome_def)
    then have "count_finish pre gl = Inl ArgTooLong"
      by (simp add: count_finish_def)
    with skip Inr have "create_args avail pre ?buf g = Inl ArgTooLong"
      by (simp add: create_args_def)
    then show ?thesis by simp
  qed
  then show ?thesis by (auto simp: is_parse_error_def)
qed

theorem long_token_rejected_witness:
  "create_args 1 [NUL] (replicate 256 (CHR ''a'') @ [NUL]) shell_init = Inl ArgTooLong"
proof -
  let ?line = "replicate 256 (CHR ''a'')"
  have t: "tokens ?line = [?line]"
    unfolding tokens_def by (subst tok_nonblank) (auto simp: is_space_def)
  have h1: "NUL \<notin> set ?line" by (simp add: NUL_def)
  have h2: "\<exists>t \<in> set (tokens ?line). MAXARG \<le> length t" by (simp add: t MAXARG_def)
  have h3: "guarded [NUL]" by (simp add: guarded_def is_space_def NUL_def)
  have h4: "''>'' \<notin> set (tokens ?line)" "''<'' \<notin> set (tokens ?line)"
    by (auto simp: t dest: arg_cong [where f = length])
  from long_token_rejected [OF h1 h2, of 1 "[NUL]" "[]" shell_init] h3 h4 show ?thesis
    by auto
qed

text \<open>
  Claim C5 as stated (a line of whitespace yields a command with zero arguments)
  fails: for the empty line the argument vector has one member, the empty string, and
  \<^verbatim>\<open>argsc\<close> is 2. The scan for trailing whitespace reads the byte below the buffer;
  with no byte there to read, the access is out of bounds.
\<close>

theorem blank_line_arguments_counterexample:
  "create_args 2 [NUL] [NUL] shell_init
     = Inr (shell_init\<lparr>argsc := 2, args := Ptr [Ptr (replicate MAXARG NUL), Null]\<rparr>) \<and>
   command_of (shell_init\<lparr>argsc := 2, args := Ptr [Ptr (replicate MAXARG NUL), Null]\<rparr>)
     = Some \<lparr>arguments = [[]], input_redirect = None, output_redirect = None,
             background = False\<rparr> \<and>
   create_args 2 [] [NUL] shell_init = Inl OutOfBounds"
  by (simp add: create_args_eval shell_init_def command_of_def redirect_def
           cong: then_do_weak_cong)

text \<open>
  Claim C5, amended. For every line of whitespace only (the empty line included), when
  the byte below the buffer stops the backward scan: parsing succeeds, \<^verbatim>\<open>argsc\<close> is 2,
  the argument vector holds one argument, the empty string, with no redirection and
  no background flag; \<^verbatim>\<open>input_start\<close> takes the branch \<^verbatim>\<open>strlen(args[0]) == 0\<close>, which
  frees the arguments, prints the prompt and reads on, leaving the monitor, the exit
  flag and the job list as they were.
\<close>

theorem blank_line_parse:
  assumes ws: "\<forall>c \<in> set line. is_space c" and grd: "guarded pre"
    and mem: "2 \<le> avail" and clr: "redirs_cleared g"
  shows "\<exists>g'. create_args avail pre (line @ NUL # rest) g = Inr g' \<and>
           argsc g' = 2 \<and>
           command_of g' = Some \<lparr>arguments = [[]], input_redirect = None,
                                  output_redirect = None, background = False\<rparr> \<and>
           input_branch g' = Inr EmptyLine \<and>
           (\<exists>g''. input_empty g' = Inr \<lparr>goes_on = True, stdout = [CHR 0x0D] @ ''$ '', globals = g''\<rparr> \<and>
                  exec_args g'' = exec_args g \<and> exit_flag g'' = exit_flag g \<and> jobs g'' = jobs g)"
proof -
  let ?n = "length line"
  let ?buf = "line @ NUL # rest"
  let ?buf' = "?buf[0 := NUL]"
  let ?g1 = "g\<lparr>run_bg := False, argsc := 1\<rparr>"
  let ?l1 = "\<lparr>loc_buf = ?buf, loc_ptr = int ?n, loc_bptr = int ?n, loc_i = 0, loc_j = 0\<rparr>"
  have blanks: "\<forall>q. 0 \<le> q \<and> q < ?n \<longrightarrow> is_space (?buf ! q)"
    using ws by (simp add: nth_append)
  have stop: "\<not> is_space (?buf ! ?n)" by (simp add: is_space_def NUL_def)
  have "skip_fwd pre ?buf (int 0, 0) = Inr (int ?n, if 0 = ?n then 0 else int ?n)"
    using blanks stop by (intro skip_fwd_spec) auto
  then have skip1: "skip_fwd pre ?buf (0, 0) = Inr (int ?n, int ?n)"
    by (auto split: if_splits)
  have pkn: "peek pre ?buf (int ?n) = Inr NUL"
    using peek_nat [of ?n ?buf pre] by simp
  have loop1: "count_loop pre (?g1, ?l1) = Inr (?g1, ?l1)"
    by (subst count_loop.simps) (simp add: pkn)
  have bck: "skip_back pre ?buf (int ?n - 1) = Inr (- 1)"
    using grd blanks by (intro skip_back_blanks) auto
  let ?g2 = "g\<lparr>run_bg := False, argsc := 2\<rparr>"
  let ?g3 = "g\<lparr>run_bg := False, argsc := 2, args := Ptr [Ptr (replicate MAXARG NUL), Null]\<rparr>"
  let ?l2 = "\<lparr>loc_buf = ?buf', loc_ptr = 0, loc_bptr = int ?n, loc_i = 0, loc_j = 0\<rparr>"
  let ?l3 = "\<lparr>loc_buf = ?buf', loc_ptr = 0, loc_bptr = 0, loc_i = 0, loc_j = 0\<rparr>"
  have fin1: "count_finish pre (?g1, ?l1) = Inr (?g2, ?l2)"
    by (simp add: count_finish_def MAXARG_def bck poke_def)
  have alloc: "alloc_args avail ?g2 = Inr ?g3"
    using mem by (subst alloc_args_ok) (simp_all add: replicate_small)
  have buf0: "?buf' ! 0 = NUL" by (cases line) simp_all
  have pk0: "peek pre ?buf' 0 = Inr NUL"
    using buf0 by (simp add: peek_def)
  have skip2: "skip_fwd pre ?buf' (0, 0) = Inr (0, 0)"
    by (subst skip_fwd.simps) (simp add: pk0)
  have loop2: "fill_loop pre (?g3, ?l3) = Inr (?g3, ?l3)"
    by (subst fill_loop.simps) (simp add: pk0)
  have fin2: "fill_finish pre (?g3, ?l3) = Inr (?g3, ?l3)"
    by (simp add: fill_finish_def Let_def pk0 copy_arg_def memcpy_from_def null_arg_def MAXARG_def)
  have res: "create_args avail pre ?buf g = Inr ?g3"
    by (simp add: create_args_def skip1 loop1 fin1 alloc skip2 loop2 fin2)
  from clr have cmd: "command_of ?g3 = Some \<lparr>arguments = [[]], input_redirect = None,
                                  output_redirect = None, background = False\<rparr>"
    by (simp add: command_of_def redirect_def redirs_cleared_def cstr_cleared)
  have br: "input_branch ?g3 = Inr EmptyLine"
    by (simp add: input_branch_def arg_string_def MAXARG_def)
  have em: "input_empty ?g3
      = Inr \<lparr>goes_on = True, stdout = [CHR 0x0D] @ ''$ '',
             globals = ?g3\<lparr>args := Dangling, redir_t := (redir_t g)[0 := NUL],
                             redir_f := (redir_f g)[0 := NUL]\<rparr>\<rparr>"
    by (simp add: input_empty_def clear_args_def)
  from res cmd br em show ?thesis by simp
qed

theorem blank_line_parse_witness:
  "\<exists>g'. create_args 2 [NUL] (''   '' @ [NUL]) shell_init = Inr g' \<and>
         argsc g' = 2 \<and>
         command_of g' = Some \<lparr>arguments = [[]], input_redirect = None,
                                output_redirect = None, background = False\<rparr> \<and>
         input_branch g' = Inr EmptyLine"
proof -
  have h1: "\<forall>c \<in> set ''   ''. is_space c" by (simp add: is_space_def)
  have h2: "guarded [NUL]" by (simp add: guarded_def)
  have h3: "(2::nat) \<le> 2" by simp
  have h4: "redirs_cleared shell_init"
    by (simp add: redirs_cleared_def shell_init_def MAXARG_def)
  from blank_line_parse [OF h1 h2 h3 h4, of "[]"] show ?thesis by auto
qed

text \<open>
  Claim C6 (the background operator). On a line whose last token is \<^verbatim>\<open>&\<close>, after one or
  more ordinary arguments, parsing succeeds: the arguments are the tokens before the
  \<^verbatim>\<open>&\<close>, the background flag is set, there is no redirection, and the \<^verbatim>\<open>&\<close> is not counted
  in \<^verbatim>\<open>argsc\<close>; the whitespace before the \<^verbatim>\<open>&\<close> is cut off the line. The line
  \<^verbatim>\<open>sleep 5 &\<close> yields \<^verbatim>\<open>["sleep", "5"]\<close> in the background.
\<close>

theorem background_operator:
  assumes nul: "NUL \<notin> set line" and toks: "tokens line = ws @ [''&'']" and ws: "ws \<noteq> []"
    and pl: "\<forall>w \<in> set ws. plain w" and mem: "Suc (length ws) \<le> avail"
    and clr: "redirs_cleared g"
  shows "\<exists>g'. create_args avail pre (line @ NUL # rest) g = Inr g' \<and>
           argsc g' = 1 + int (length ws) \<and>
           command_of g' = Some \<lparr>arguments = ws, input_redirect = None,
                                  output_redirect = None, background = True\<rparr>"
proof -
  let ?n = "length line"
  let ?buf = "line @ NUL # rest"
  let ?N = "length ws"
  \<comment> \<open>the leading whitespace\<close>
  obtain p0 where p0: "p0 \<le> ?n" "\<forall>q. 0 \<le> q \<and> q < p0 \<longrightarrow> is_space (line ! q)"
    "p0 < ?n \<longrightarrow> \<not> is_space (line ! p0)" "tok [] (drop 0 line) = tok [] (drop p0 line)"
    using first_nonblank [of 0 line] by auto
  from toks p0(4) have toks0: "tok [] (drop p0 line) = ws @ [''&'']" by (simp add: tokens_def)
  have p0lt: "p0 < ?n"
  proof (rule ccontr)
    assume "\<not> p0 < ?n"
    with p0(1) have "drop p0 line = []" by simp
    with toks0 show False by simp
  qed
  have "skip_fwd pre ?buf (int 0, 0) = Inr (int p0, if 0 = p0 then 0 else int p0)"
  proof (rule skip_fwd_spec)
    show "p0 < length ?buf" using p0lt by simp
    show "\<forall>q. 0 \<le> q \<and> q < p0 \<longrightarrow> is_space (?buf ! q)"
      using p0(2) p0lt by (simp add: nth_buf_line)
    show "\<not> is_space (?buf ! p0)" using p0(3) p0lt by (simp add: nth_buf_line)
  qed simp
  then have skip1: "skip_fwd pre ?buf (0, 0) = Inr (int p0, int p0)"
    by (auto split: if_splits)
  \<comment> \<open>the first pass\<close>
  let ?g1 = "g\<lparr>run_bg := False, argsc := 1\<rparr>"
  let ?l1 = "\<lparr>loc_buf = ?buf, loc_ptr = int p0, loc_bptr = int p0, loc_i = 0, loc_j = 0\<rparr>"
  let ?g2 = "g\<lparr>run_bg := True, argsc := 1 + int ?N\<rparr>"
  have "\<exists>l' E. then_do (count_loop pre (?g1, ?l1)) (count_finish pre)
               = Inr (?g1\<lparr>run_bg := True, argsc := 1 + int (0 + ?N)\<rparr>, l') \<and>
            length (loc_buf l') = length ?buf \<and>
            0 < E \<and> E < ?n \<and> take E (loc_buf l') = take E line \<and>
            loc_buf l' ! E = NUL \<and> is_space (line ! E) \<and> \<not> is_space (line ! (E - 1)) \<and>
            tok [] (drop (Suc E) line) = [''&'']"
  proof (rule count_pass_amp [OF nul, where p = p0 and b = p0 and k = 0 and e = 0])
    show "tok (take (p0 - p0) (drop p0 line)) (drop p0 line) = ws @ [''&'']"
      using toks0 by simp
    show "p0 = p0 \<longrightarrow> p0 = ?n \<or> \<not> is_space (line ! p0)" using p0(3) p0lt by simp
    show "0 < 0 + ?N" using ws by simp
  qed (use p0(1) pl in auto)
  then obtain l2 E where pass1: "then_do (count_loop pre (?g1, ?l1)) (count_finish pre) = Inr (?g2, l2)"
    and len2: "length (loc_buf l2) = length ?buf"
    and E: "0 < E" "E < ?n" "take E (loc_buf l2) = take E line" "loc_buf l2 ! E = NUL"
      "is_space (line ! E)" "\<not> is_space (line ! (E - 1))" "tok [] (drop (Suc E) line) = [''&'']"
    by auto
  \<comment> \<open>the line as the first pass has cut it\<close>
  define cut where "cut = take E line"
  define rest2 where "rest2 = drop (Suc E) (loc_buf l2)"
  from E(2) len2 have "loc_buf l2 = take E (loc_buf l2) @ loc_buf l2 ! E # drop (Suc E) (loc_buf l2)"
    by (intro id_take_nth_drop) simp
  with E(3,4) have buf2: "loc_buf l2 = cut @ NUL # rest2"
    by (simp add: cut_def rest2_def)
  from E(2) have cutlen: "length cut = E" by (simp add: cut_def)
  from nul have cutnul: "NUL \<notin> set cut"
    unfolding cut_def by (meson in_set_takeD)
  from E(1,2) have cutne: "cut \<noteq> []" by (auto simp: cut_def)
  from E(1,2) cutne have "last cut = line ! (E - 1)"
    by (simp add: last_conv_nth cut_def)
  with E(6) have cutlast: "\<not> is_space (last cut)" by simp
  from E(2) have "line = cut @ line ! E # drop (Suc E) line"
    unfolding cut_def by (rule id_take_nth_drop)
  then have "tok [] line = tok [] cut @ tok [] (drop (Suc E) line)"
    using E(5) tok_append_blank [of "line ! E" "[]" cut "drop (Suc E) line"] by simp
  with toks E(7) have cuttoks: "tok [] cut = ws" by (simp add: tokens_def)
  have p0E: "p0 < E"
  proof (rule ccontr)
    assume "\<not> p0 < E"
    with E(1) have "E - 1 < p0" by simp
    with p0(2) E(6) show False by simp
  qed
  have cutq: "cut ! q = line ! q" if "q < E" for q
    using that by (simp add: cut_def)
  have "cut = take p0 cut @ drop p0 cut" by simp
  moreover have "\<forall>c \<in> set (take p0 cut). is_space c"
  proof
    fix c assume "c \<in> set (take p0 cut)"
    then obtain q where "q < p0" "c = cut ! q"
      using p0E cutlen by (auto simp: in_set_conv_nth)
    with p0(2) p0E cutq show "is_space c" by simp
  qed
  ultimately have "tok [] cut = tok [] (drop p0 cut)"
    using tok_blanks [of "take p0 cut" "drop p0 cut"] by simp
  with cuttoks have cuttoks0: "tok [] (drop p0 cut) = ws" by simp
  \<comment> \<open>the allocation\<close>
  let ?g3 = "?g2\<lparr>args := Ptr (filled ws 0)\<rparr>"
  have alloc: "alloc_args avail ?g2 = Inr ?g3"
    using mem by (subst alloc_args_ok) (simp_all add: filled_def)
  \<comment> \<open>the second pass\<close>
  have "skip_fwd pre (cut @ NUL # rest2) (int 0, 0) = Inr (int p0, if 0 = p0 then 0 else int p0)"
  proof (rule skip_fwd_spec)
    show "p0 < length (cut @ NUL # rest2)" using p0E cutlen by simp
    show "\<forall>q. 0 \<le> q \<and> q < p0 \<longrightarrow> is_space ((cut @ NUL # rest2) ! q)"
      using p0(2) p0E cutlen cutq by (simp add: nth_append)
    show "\<not> is_space ((cut @ NUL # rest2) ! p0)"
      using p0(3) p0lt p0E cutlen cutq by (simp add: nth_append)
  qed simp
  then have skip2: "skip_fwd pre (loc_buf l2) (0, 0) = Inr (int p0, int p0)"
    using buf2 by (auto split: if_splits)
  let ?l3 = "l2\<lparr>loc_ptr := int p0, loc_bptr := int p0, loc_i := 0, loc_j := 0\<rparr>"
  let ?g4 = "?g3\<lparr>args := Ptr (filled ws ?N)\<rparr>"
  have "\<exists>l'. then_do (fill_loop pre (?g3, ?l3)) (fill_finish pre) = Inr (?g4, l')"
  proof (rule fill_pass [OF cutnul cutne cutlast pl, where p = p0 and b = p0 and k = 0 and rest = rest2])
    show "p0 \<le> length cut" using p0E cutlen by simp
    show "loc_buf ?l3 = cut @ NUL # rest2" using buf2 by simp
    show "p0 = p0 \<longrightarrow> p0 = length cut \<or> \<not> is_space (cut ! p0)"
      using p0(3) p0lt p0E cutq by simp
    show "tok (take (p0 - p0) (drop p0 cut)) (drop p0 cut) = drop 0 ws"
      using cuttoks0 by simp
    show "0 < ?N" using ws by simp
  qed auto
  then obtain l4 where pass2: "then_do (fill_loop pre (?g3, ?l3)) (fill_finish pre) = Inr (?g4, l4)"
    by auto
  \<comment> \<open>the whole function\<close>
  from pass1 obtain gl1 where loop1: "count_loop pre (?g1, ?l1) = Inr gl1"
    and fin1: "count_finish pre gl1 = Inr (?g2, l2)"
    by (cases "count_loop pre (?g1, ?l1)") auto
  from pass2 obtain gl4 where loop2: "fill_loop pre (?g3, ?l3) = Inr gl4"
    and fin2: "fill_finish pre gl4 = Inr (?g4, l4)"
    by (cases "fill_loop pre (?g3, ?l3)") auto
  have res: "create_args avail pre ?buf g = Inr ?g4"
    by (simp add: create_args_def skip1 loop1 fin1 alloc skip2 loop2 fin2)
  have wsnul: "\<forall>w \<in> set ws. NUL \<notin> set w"
  proof
    fix w assume "w \<in> set ws"
    with toks have "w \<in> set (tok [] line)" by (simp add: tokens_def)
    then have "set w \<subseteq> set line" using tok_set [of w "[]" line] by simp
    with nul show "NUL \<notin> set w" by blast
  qed
  from clr have cmd: "command_of ?g4 = Some \<lparr>arguments = ws, input_redirect = None,
                                  output_redirect = None, background = True\<rparr>"
    by (simp add: command_of_def filled_all argv_strings_filled [OF wsnul] redirect_def
          redirs_cleared_def cstr_cleared)
  from res cmd show ?thesis by simp
qed

theorem background_operator_witness:
  "\<exists>g'. create_args 3 [] (''sleep 5 &'' @ NUL # []) shell_init = Inr g' \<and>
     argsc g' = 1 + int (length [''sleep'', ''5'']) \<and>
     command_of g' = Some \<lparr>arguments = [''sleep'', ''5''], input_redirect = None,
                            output_redirect = None, background = True\<rparr>"
proof -
  have h1: "NUL \<notin> set ''sleep 5 &''" by (simp add: NUL_def)
  have h2: "tokens ''sleep 5 &'' = [''sleep'', ''5''] @ [''&'']"
    by (simp add: tokens_def is_space_def)
  have h3: "[''sleep'', ''5''] \<noteq> []" by simp
  have h4: "\<forall>w \<in> set [''sleep'', ''5'']. plain w" by (simp add: plain_def MAXARG_def)
  have h5: "Suc (length [''sleep'', ''5'']) \<le> 3" by simp
  have h6: "redirs_cleared shell_init" by (simp add: redirs_cleared_def shell_init_def MAXARG_def)
  from background_operator [OF h1 h2 h3 h4 h5 h6, of "[]" "[]"] show ?thesis .
qed

section \<open>Properties of the formatted output\<close>

lemma digit_val_digit: "n < 10 \<Longrightarrow> digit_val (digit n) = n"
proof -
  assume "n < 10"
  then consider "n = 0" | "n = 1" | "n = 2" | "n = 3" | "n = 4" | "n = 5" | "n = 6" | "n = 7" | "n = 8" | "n = 9"
    by atomize_elim arith
  then show ?thesis
    by cases (simp_all add: digit_val_def digit_def)
qed

lemma digit_in: "n < 10 \<Longrightarrow> digit n \<in> set ''0123456789''"
  unfolding digit_def by (rule nth_mem) simp

lemma read_show_nat: "read_nat (show_nat n) = n"
proof (induction n rule: show_nat.induct)
  case (1 n)
  show ?case
  proof (cases "n < 10")
    case True
    then show ?thesis
      by (simp add: show_nat.simps [of n] read_nat_def digit_val_digit)
  next
    case False
    with 1 have "read_nat (show_nat (n div 10)) = n div 10" by simp
    with False show ?thesis
      by (simp add: show_nat.simps [of n] read_nat_def digit_val_digit)
  qed
qed

lemma show_nat_digits: "set (show_nat n) \<subseteq> set ''0123456789''"
proof (induction n rule: show_nat.induct)
  case (1 n)
  show ?case
  proof (cases "n < 10")
    case True
    with digit_in [of n] show ?thesis
      by (simp add: show_nat.simps [of n])
  next
    case False
    with 1 have "set (show_nat (n div 10)) \<subseteq> set ''0123456789''" by simp
    moreover have "digit (n mod 10) \<in> set ''0123456789''" by (rule digit_in) simp
    ultimately show ?thesis using False
      by (simp add: show_nat.simps [of n])
  qed
qed

lemma show_nat_inj: "show_nat m = show_nat n \<Longrightarrow> m = n"
  by (metis read_show_nat)

lemma show_int_inj: "show_int a = show_int b \<Longrightarrow> a = b"
proof -
  assume eq: "show_int a = show_int b"
  have nominus: "\<And>n. CHR ''-'' \<notin> set (show_nat n)"
    using show_nat_digits by fastforce
  have ne: "\<And>n. show_nat n \<noteq> []"
    by (subst show_nat.simps) simp
  have nohd: "\<And>m n. CHR ''-'' # show_nat m \<noteq> show_nat n"
    using nominus by (metis list.set_intros(1))
  show ?thesis
  proof (cases "a < 0")
    case True
    note a = this
    show ?thesis
    proof (cases "b < 0")
      case True
      with a eq have "show_nat (nat (- a)) = show_nat (nat (- b))" by (simp add: show_int_def)
      then have "nat (- a) = nat (- b)" by (rule show_nat_inj)
      with a True show ?thesis by simp
    next
      case False
      with a eq nohd show ?thesis by (simp add: show_int_def)
    qed
  next
    case False
    note a = this
    show ?thesis
    proof (cases "b < 0")
      case True
      with a eq nohd [of "nat (- b)" "nat a"] show ?thesis by (simp add: show_int_def)
    next
      case False
      with a eq have "show_nat (nat a) = show_nat (nat b)" by (simp add: show_int_def)
      then have "nat a = nat b" by (rule show_nat_inj)
      with a False show ?thesis by simp
    qed
  qed
qed

lemma show_int_no_bracket: "CHR '']'' \<notin> set (show_int a)"
proof -
  have "\<And>n. CHR '']'' \<notin> set (show_nat n)"
    using show_nat_digits by fastforce
  then show ?thesis by (simp add: show_int_def)
qed

lemma split_at_first:
  assumes "xs @ c # ys = xs' @ c # ys'" and "c \<notin> set xs" and "c \<notin> set xs'"
  shows "xs = xs'"
proof -
  have "takeWhile (\<lambda>x. x \<noteq> c) (xs @ c # ys) = xs" using assms(2) by (subst takeWhile_append2) auto
  moreover have "takeWhile (\<lambda>x. x \<noteq> c) (xs' @ c # ys') = xs'" using assms(3) by (subst takeWhile_append2) auto
  ultimately show ?thesis using assms(1) by simp
qed

lemma job_line_pid: "job_line a = job_line b \<Longrightarrow> pid a = pid b"
proof -
  assume "job_line a = job_line b"
  then have "show_int (pid a) @ CHR '']'' # (CHR '' '' # name a @ newline)
           = show_int (pid b) @ CHR '']'' # (CHR '' '' # name b @ newline)"
    by (simp add: job_line_def)
  then have "show_int (pid a) = show_int (pid b)"
    by (rule split_at_first) (rule show_int_no_bracket)+
  then show ?thesis by (rule show_int_inj)
qed


section \<open>Properties of the job list\<close>

lemma jobs_find_remove_absent:
  "p \<notin> pid ` set js \<Longrightarrow> jobs_find_remove js p = (False, js)"
  by (induction js) auto

lemma jobs_find_remove_present:
  "p \<in> pid ` set js \<Longrightarrow> fst (jobs_find_remove js p)"
  by (induction js) (auto split: prod.splits)

text \<open>
  Claim C7 (Job Registry round trip). For every name that fits \<^verbatim>\<open>char name[MAXARG]\<close> and
  every pid that no job of the list has yet, when the allocation succeeds:
  \<^verbatim>\<open>jobs_insert\<close> puts the item first, and the lines \<^verbatim>\<open>jobs_print\<close> prints include the
  line of the item; \<^verbatim>\<open>jobs_find_remove\<close> for the pid then returns 1 and leaves the
  list as it was before the insertion, the lines printed for that list do not
  include the line of the item, and a second \<^verbatim>\<open>jobs_find_remove\<close> for the pid returns 0.
\<close>

theorem jobs_round_trip:
  assumes "0 < avail" and "length nm < MAXARG" and "p \<notin> pid ` set js"
  shows "jobs_insert avail js nm p = Inr (\<lparr>pid = p, name = nm\<rparr> # js) \<and>
         job_line \<lparr>pid = p, name = nm\<rparr> \<in> set (jobs_print (\<lparr>pid = p, name = nm\<rparr> # js)) \<and>
         jobs_find_remove (\<lparr>pid = p, name = nm\<rparr> # js) p = (True, js) \<and>
         job_line \<lparr>pid = p, name = nm\<rparr> \<notin> set (jobs_print js) \<and>
         jobs_find_remove js p = (False, js)"
proof -
  from assms(1,2) have ins: "jobs_insert avail js nm p = Inr (\<lparr>pid = p, name = nm\<rparr> # js)"
    by (simp add: jobs_insert_def)
  have line: "job_line \<lparr>pid = p, name = nm\<rparr> \<in> set (jobs_print (\<lparr>pid = p, name = nm\<rparr> # js))"
    by (simp add: jobs_print_def)
  have rem: "jobs_find_remove (\<lparr>pid = p, name = nm\<rparr> # js) p = (True, js)"
    by simp
  have gone: "job_line \<lparr>pid = p, name = nm\<rparr> \<notin> set (jobs_print js)"
  proof
    assume "job_line \<lparr>pid = p, name = nm\<rparr> \<in> set (jobs_print js)"
    then obtain it where it: "it \<in> set js" and "job_line \<lparr>pid = p, name = nm\<rparr> = job_line it"
      by (auto simp: jobs_print_def)
    from this(2) have "pid it = p" using job_line_pid [of "\<lparr>pid = p, name = nm\<rparr>" it] by simp
    with it assms(3) show False by auto
  qed
  from assms(3) have again: "jobs_find_remove js p = (False, js)"
    by (rule jobs_find_remove_absent)
  from ins line rem gone again show ?thesis by blast
qed

theorem jobs_round_trip_witness:
  "jobs_insert 1 [\<lparr>pid = 17, name = ''cat''\<rparr>] ''sleep'' 4242
     = Inr [\<lparr>pid = 4242, name = ''sleep''\<rparr>, \<lparr>pid = 17, name = ''cat''\<rparr>] \<and>
   ''[4242] sleep'' @ newline
     \<in> set (jobs_print [\<lparr>pid = 4242, name = ''sleep''\<rparr>, \<lparr>pid = 17, name = ''cat''\<rparr>]) \<and>
   jobs_find_remove [\<lparr>pid = 4242, name = ''sleep''\<rparr>, \<lparr>pid = 17, name = ''cat''\<rparr>] 4242
     = (True, [\<lparr>pid = 17, name = ''cat''\<rparr>]) \<and>
   ''[4242] sleep'' @ newline \<notin> set (jobs_print [\<lparr>pid = 17, name = ''cat''\<rparr>]) \<and>
   jobs_find_remove [\<lparr>pid = 17, name = ''cat''\<rparr>] 4242 = (False, [\<lparr>pid = 17, name = ''cat''\<rparr>])"
proof -
  have h1: "(0::nat) < 1" by simp
  have h2: "length ''sleep'' < MAXARG" by (simp add: MAXARG_def)
  have h3: "(4242::int) \<notin> pid ` set [\<lparr>pid = 17, name = ''cat''\<rparr>]" by simp
  have l: "job_line \<lparr>pid = 4242, name = ''sleep''\<rparr> = ''[4242] sleep'' @ newline"
    by (simp add: job_line_def show_int_def show_nat.simps digit_def)
  from jobs_round_trip [OF h1 h2 h3] l show ?thesis by simp
qed

section \<open>Status lines of child processes\<close>

subsection \<open>What the two calls of \<^verbatim>\<open>waitpid\<close> can return\<close>

lemma take_report_reported:
  "take_report p opts cs = Some ((q, st), cs') \<Longrightarrow> reported opts st"
  by (induction cs arbitrary: cs') (auto simp: Let_def split: option.splits if_splits)

lemma take_report_none:
  "\<forall>c \<in> set cs. \<forall>st. snd c = Some st \<longrightarrow> \<not> reported opts st \<Longrightarrow> take_report p opts cs = None"
  by (induction cs) (auto simp: Let_def split: option.splits)

text \<open>Under \<^verbatim>\<open>WNOHANG\<close> alone the call returns at once, and the only status it brings is an end.\<close>

lemma waitpid_nohang_returns: "\<exists>wr cs'. waitpid p [WNOHANG] cs = Some (wr, cs')"
  by (auto simp: waitpid_def split: option.splits)

lemma waitpid_nohang_ended:
  "waitpid p [WNOHANG] cs = Some (WaitChild w st, cs') \<Longrightarrow> WIFEXITED st \<or> WIFSIGNALED st"
proof -
  assume "waitpid p [WNOHANG] cs = Some (WaitChild w st, cs')"
  then have "take_report p [WNOHANG] cs = Some ((w, st), cs')"
    by (auto simp: waitpid_def split: if_splits option.splits)
  then have "reported [WNOHANG] st" by (rule take_report_reported)
  then show ?thesis by (cases st) simp_all
qed

subsection \<open>The case \<^verbatim>\<open>SIGCHLD\<close> of the signal thread\<close>

lemma sig_handler_found:
  assumes "0 < w" and "w \<in> pid ` set (jobs g)"
  shows "fst (sig_handler_SIGCHLD g (WaitChild w status))
           = print_status w status @ (if \<not> exec_args g then ''$ '' else [])"
proof -
  from assms(2) have "fst (jobs_find_remove (jobs g) w)"
    by (rule jobs_find_remove_present)
  then obtain js where "jobs_find_remove (jobs g) w = (True, js)"
    by (cases "jobs_find_remove (jobs g) w") simp
  with assms(1) show ?thesis
    by (simp add: sig_handler_SIGCHLD_def)
qed

lemma sig_handler_not_found:
  "w \<notin> pid ` set (jobs g) \<Longrightarrow> sig_handler_SIGCHLD g (WaitChild w status) = ([], g)"
  by (simp add: sig_handler_SIGCHLD_def jobs_find_remove_absent)

lemma sig_handler_silent:
  "sig_handler_SIGCHLD g WaitNone = ([], g)" "sig_handler_SIGCHLD g (WaitFailed e) = ([], g)"
  by (simp_all add: sig_handler_SIGCHLD_def)

text \<open>
  The line of a job that exited with status 0, the part of claim C10 that holds: a
  reaped pid found in the job list is reported as \<^verbatim>\<open>[pid]+ Done\<close>.
\<close>

lemma background_done_line:
  assumes "0 < w" and "w \<in> pid ` set (jobs g)"
  shows "fst (sig_handler_SIGCHLD g (WaitChild w (Exited 0)))
           = newline @ ''['' @ show_int w @ '']+ Done'' @ newline @
             (if \<not> exec_args g then ''$ '' else [])"
  using sig_handler_found [OF assms, of "Exited 0"] by (simp add: print_status_def)

text \<open>
  Whatever the signal thread prints on \<^verbatim>\<open>SIGCHLD\<close> is the line of a job that has ended:
  \<^verbatim>\<open>waitpid(-1, &status, WNOHANG)\<close> brings no other status.
\<close>

lemma sig_handler_reap_ended:
  assumes "sig_handler_reap g cs = Some ((out, g'), cs')" and "out \<noteq> []"
  shows "\<exists>w st. (WIFEXITED st \<or> WIFSIGNALED st) \<and> w \<in> pid ` set (jobs g) \<and>
           out = print_status w st @ (if \<not> exec_args g then ''$ '' else [])"
proof -
  from assms(1) obtain wr where wr: "waitpid (- 1) [WNOHANG] cs = Some (wr, cs')"
    and out: "sig_handler_SIGCHLD g wr = (out, g')"
    by (auto simp: sig_handler_reap_def)
  show ?thesis
  proof (cases wr)
    case (WaitFailed e)
    with out assms(2) show ?thesis by (simp add: sig_handler_silent)
  next
    case WaitNone
    with out assms(2) show ?thesis by (simp add: sig_handler_silent)
  next
    case (WaitChild w st)
    with wr have ended: "WIFEXITED st \<or> WIFSIGNALED st" by (auto dest: waitpid_nohang_ended)
    have mem: "w \<in> pid ` set (jobs g)"
    proof (rule ccontr)
      assume "w \<notin> pid ` set (jobs g)"
      then have "sig_handler_SIGCHLD g (WaitChild w st) = ([], g)" by (rule sig_handler_not_found)
      with out WaitChild assms(2) show False by simp
    qed
    have pos: "0 < w"
    proof (rule ccontr)
      assume "\<not> 0 < w"
      then have "sig_handler_SIGCHLD g (WaitChild w st) = ([], g)"
        by (simp add: sig_handler_SIGCHLD_def)
      with out WaitChild assms(2) show False by simp
    qed
    from sig_handler_found [OF pos mem, of st] out WaitChild
    have "out = print_status w st @ (if \<not> exec_args g then ''$ '' else [])" by simp
    with ended mem show ?thesis by blast
  qed
qed

text \<open>
  While the children have only stops and continuations to report, the signal thread
  prints nothing and the job list and the children stay as they are.
\<close>

lemma sig_handler_reap_stopped:
  assumes "\<forall>c \<in> set cs. \<forall>st. snd c = Some st \<longrightarrow> \<not> WIFEXITED st \<and> \<not> WIFSIGNALED st"
  shows "sig_handler_reap g cs = Some (([], g), cs)"
proof -
  have "\<forall>c \<in> set cs. \<forall>st. snd c = Some st \<longrightarrow> \<not> reported [WNOHANG] st"
  proof (intro ballI allI impI)
    fix c st assume "c \<in> set cs" "snd c = Some st"
    with assms have "\<not> WIFEXITED st \<and> \<not> WIFSIGNALED st" by blast
    then show "\<not> reported [WNOHANG] st" by (cases st) simp_all
  qed
  then have "take_report (- 1) [WNOHANG] cs = None" by (rule take_report_none)
  then show ?thesis
    by (simp add: sig_handler_reap_def waitpid_def sig_handler_silent)
qed

text \<open>
  Claim C10 (status line of a background job: \<^verbatim>\<open>Done\<close> for exit status 0, \<^verbatim>\<open>Stopped\<close> for
  a stopped child, \<^verbatim>\<open>Terminated\<close> for any other change), evaluated on the code for the
  job 4242 of the job list that signal 21 (\<^verbatim>\<open>SIGTTIN\<close>) has stopped: the call
  \<^verbatim>\<open>waitpid(-1, &status, WNOHANG)\<close> of line 605 returns 0, the signal thread prints
  nothing and the job stays in the list. \<^verbatim>\<open>print_status\<close> has the line
  \<^verbatim>\<open>[4242]+ Stopped\<close> for this status, and the same code prints it once \<^verbatim>\<open>waitpid\<close>
  is called with \<^verbatim>\<open>WUNTRACED\<close> as well.
\<close>

theorem stopped_job_not_reported:
  "sig_handler_reap (shell_init\<lparr>jobs := [\<lparr>pid = 4242, name = ''cat''\<rparr>]\<rparr>)
     [(4242, Some (Stopped 21))]
     = Some (([], shell_init\<lparr>jobs := [\<lparr>pid = 4242, name = ''cat''\<rparr>]\<rparr>),
             [(4242, Some (Stopped 21))]) \<and>
   print_status 4242 (Stopped 21) = newline @ ''[4242]+ Stopped'' @ newline \<and>
   waitpid (- 1) [WNOHANG, WUNTRACED] [(4242, Some (Stopped 21))]
     = Some (WaitChild 4242 (Stopped 21), [(4242, None)]) \<and>
   sig_handler_SIGCHLD (shell_init\<lparr>jobs := [\<lparr>pid = 4242, name = ''cat''\<rparr>]\<rparr>)
     (WaitChild 4242 (Stopped 21))
     = (newline @ ''[4242]+ Stopped'' @ newline @ ''$ '', shell_init\<lparr>jobs := []\<rparr>)"
proof -
  have s: "show_int 4242 = ''4242''"
    by (simp add: show_int_def show_nat.simps digit_def)
  show ?thesis
    by (simp add: sig_handler_reap_def waitpid_def awaited_def sig_handler_SIGCHLD_def
          print_status_def s shell_init_def)
qed

subsection \<open>A command in the foreground\<close>

text \<open>
  Claim C8 as stated (a foreground command that exits with a non-zero status produces
  an \<^verbatim>\<open>Exit <code>\<close> line, one killed by a signal a \<^verbatim>\<open>Killed\<close> line) fails: for the
  foreground child 42 that exits with status 1 neither \<^verbatim>\<open>execute_file\<close> nor the signal
  thread prints anything, and when it is killed by signal 9 only a newline is printed.
\<close>

theorem foreground_status_line_counterexample:
  "execute_file_parent 1 shell_init 42 (WaitChild 42 (Exited 1)) = Inr (0, [], shell_init) \<and>
   sig_handler_SIGCHLD shell_init (WaitChild 42 (Exited 1)) = ([], shell_init) \<and>
   execute_file_parent 1 shell_init 42 (WaitChild 42 (Signaled 9)) = Inr (0, newline, shell_init) \<and>
   sig_handler_SIGCHLD shell_init (WaitChild 42 (Signaled 9)) = ([], shell_init)"
  by (simp add: execute_file_parent_def sig_handler_SIGCHLD_def shell_init_def)

text \<open>
  Claim C8, amended. A foreground command produces no status line, whatever its
  status. Whatever \<^verbatim>\<open>waitpid\<close> returns, \<^verbatim>\<open>execute_file\<close> prints nothing or a single
  newline: the newline when \<^verbatim>\<open>waitpid\<close> returns the child as killed by a signal, nothing
  when the child exited (with any code), and nothing when \<^verbatim>\<open>waitpid\<close> fails with
  \<^verbatim>\<open>ECHILD\<close> because the signal thread has reaped the child first. The case \<^verbatim>\<open>SIGCHLD\<close>
  of \<^verbatim>\<open>sig_handler\<close> prints nothing for the pid of the foreground child, which is not in
  the job list: what it prints is always the text of \<^verbatim>\<open>print_status\<close> for a pid of the
  job list, and it prints that text for every such pid it reaps. The lines
  \<^verbatim>\<open>[pid]+ Exit <code>\<close> and \<^verbatim>\<open>[pid]+ Killed\<close> are what \<^verbatim>\<open>print_status\<close> prints for an exit
  with a non-zero code and for a signal: they are the lines of background jobs.
\<close>

theorem foreground_no_status_line:
  assumes "\<not> run_bg g" and "0 < cpid" and "cpid \<notin> pid ` set (jobs g)"
  shows "(\<exists>rv out. execute_file_parent avail g cpid wr = Inr (rv, out, g) \<and>
                   (out = [] \<or> out = newline)) \<and>
         execute_file_parent avail g cpid (WaitChild cpid status)
           = Inr (0, if WIFSIGNALED status then newline else [], g) \<and>
         execute_file_parent avail g cpid (WaitFailed ECHILD) = Inr (0, [], g) \<and>
         sig_handler_SIGCHLD g (WaitChild cpid status) = ([], g) \<and>
         (fst (sig_handler_SIGCHLD g wr') \<noteq> [] \<longrightarrow>
            (\<exists>w st. wr' = WaitChild w st \<and> w \<in> pid ` set (jobs g))) \<and>
         (0 < w \<and> w \<in> pid ` set (jobs g) \<longrightarrow>
            fst (sig_handler_SIGCHLD g (WaitChild w st))
              = print_status w st @ (if \<not> exec_args g then ''$ '' else [])) \<and>
         (0 < c \<longrightarrow> print_status w (Exited c)
              = newline @ ''['' @ show_int w @ '']+ Exit '' @ show_int (int c) @ newline) \<and>
         print_status w (Signaled n) = newline @ ''['' @ show_int w @ '']+ Killed'' @ newline"
proof -
  from assms(1) have any: "\<exists>rv out. execute_file_parent avail g cpid wr = Inr (rv, out, g) \<and>
                   (out = [] \<or> out = newline)"
    by (cases wr) (simp_all add: execute_file_parent_def)
  from assms(1,2) have own: "execute_file_parent avail g cpid (WaitChild cpid status)
           = Inr (0, if WIFSIGNALED status then newline else [], g)"
    by (simp add: execute_file_parent_def)
  from assms(1) have gone: "execute_file_parent avail g cpid (WaitFailed ECHILD) = Inr (0, [], g)"
    by (simp add: execute_file_parent_def)
  from assms(3) have sig: "sig_handler_SIGCHLD g (WaitChild cpid status) = ([], g)"
    by (rule sig_handler_not_found)
  have only: "\<exists>w st. wr' = WaitChild w st \<and> w \<in> pid ` set (jobs g)"
    if "fst (sig_handler_SIGCHLD g wr') \<noteq> []"
  proof (cases wr')
    case (WaitFailed e)
    with that show ?thesis by (simp add: sig_handler_silent)
  next
    case WaitNone
    with that show ?thesis by (simp add: sig_handler_silent)
  next
    case (WaitChild w st)
    have "w \<in> pid ` set (jobs g)"
    proof (rule ccontr)
      assume "w \<notin> pid ` set (jobs g)"
      then have "sig_handler_SIGCHLD g (WaitChild w st) = ([], g)" by (rule sig_handler_not_found)
      with that WaitChild show False by simp
    qed
    with WaitChild show ?thesis by simp
  qed
  have found: "fst (sig_handler_SIGCHLD g (WaitChild w st))
              = print_status w st @ (if \<not> exec_args g then ''$ '' else [])"
    if "0 < w \<and> w \<in> pid ` set (jobs g)"
    using that by (simp add: sig_handler_found)
  have lines: "(0 < c \<longrightarrow> print_status w (Exited c)
              = newline @ ''['' @ show_int w @ '']+ Exit '' @ show_int (int c) @ newline) \<and>
         print_status w (Signaled n) = newline @ ''['' @ show_int w @ '']+ Killed'' @ newline"
    by (simp add: print_status_def)
  from any own gone sig only found lines show ?thesis by blast
qed

theorem foreground_no_status_line_witness:
  "execute_file_parent 1 (shell_init\<lparr>jobs := [\<lparr>pid = 17, name = ''cat''\<rparr>]\<rparr>) 42
     (WaitChild 42 (Signaled 9))
     = Inr (0, newline, shell_init\<lparr>jobs := [\<lparr>pid = 17, name = ''cat''\<rparr>]\<rparr>) \<and>
   execute_file_parent 1 (shell_init\<lparr>jobs := [\<lparr>pid = 17, name = ''cat''\<rparr>]\<rparr>) 42
     (WaitFailed ECHILD)
     = Inr (0, [], shell_init\<lparr>jobs := [\<lparr>pid = 17, name = ''cat''\<rparr>]\<rparr>) \<and>
   sig_handler_SIGCHLD (shell_init\<lparr>jobs := [\<lparr>pid = 17, name = ''cat''\<rparr>]\<rparr>)
     (WaitChild 42 (Signaled 9))
     = ([], shell_init\<lparr>jobs := [\<lparr>pid = 17, name = ''cat''\<rparr>]\<rparr>) \<and>
   fst (sig_handler_SIGCHLD (shell_init\<lparr>jobs := [\<lparr>pid = 17, name = ''cat''\<rparr>]\<rparr>)
          (WaitChild 17 (Exited 1)))
     = newline @ ''[17]+ Exit 1'' @ newline @ ''$ '' \<and>
   print_status 17 (Signaled 9) = newline @ ''[17]+ Killed'' @ newline"
proof -
  let ?g = "shell_init\<lparr>jobs := [\<lparr>pid = 17, name = ''cat''\<rparr>]\<rparr>"
  have h1: "\<not> run_bg ?g" by (simp add: shell_init_def)
  have h2: "(0::int) < 42" by simp
  have h3: "(42::int) \<notin> pid ` set (jobs ?g)" by simp
  have s: "show_int 17 = ''17''" "show_int 1 = ''1''"
    by (simp_all add: show_int_def show_nat.simps digit_def)
  have e: "\<not> exec_args ?g" by (simp add: shell_init_def)
  from foreground_no_status_line [OF h1 h2 h3, of 1 "WaitFailed ECHILD" "Signaled 9"
         "WaitChild 17 (Exited 1)" 17 "Exited 1" 1 9] s e
  show ?thesis by simp
qed

text \<open>
  The two orders in which the foreground child that has ended is reaped, on the
  children the kernel holds: by \<^verbatim>\<open>execute_file\<close>, after which the signal thread finds no
  child; or by the signal thread, after which \<^verbatim>\<open>waitpid\<close> in \<^verbatim>\<open>execute_file\<close> fails with
  \<^verbatim>\<open>ECHILD\<close> and not even the newline is printed.
\<close>

lemma foreground_child_reaped_once:
  assumes "\<not> run_bg g" and "0 < cpid" and "cpid \<notin> pid ` set (jobs g)"
    and "WIFEXITED status \<or> WIFSIGNALED status"
  shows "execute_file_wait avail g cpid [(cpid, Some status)]
           = Some (Inr (0, if WIFSIGNALED status then newline else [], g), [])"
    and "sig_handler_reap g [] = Some (([], g), [])"
    and "sig_handler_reap g [(cpid, Some status)] = Some (([], g), [])"
    and "execute_file_wait avail g cpid [] = Some (Inr (0, [], g), [])"
proof -
  from assms(4) have rep: "reported opts status" for opts by (cases status) simp_all
  from assms(1,2,4) show "execute_file_wait avail g cpid [(cpid, Some status)]
           = Some (Inr (0, if WIFSIGNALED status then newline else [], g), [])"
    by (auto simp: execute_file_wait_def waitpid_def awaited_def rep execute_file_parent_def)
  show "sig_handler_reap g [] = Some (([], g), [])"
    by (simp add: sig_handler_reap_def waitpid_def sig_handler_silent)
  from assms(3,4) show "sig_handler_reap g [(cpid, Some status)] = Some (([], g), [])"
    by (auto simp: sig_handler_reap_def waitpid_def awaited_def rep sig_handler_not_found)
  from assms(1) show "execute_file_wait avail g cpid [] = Some (Inr (0, [], g), [])"
    by (simp add: execute_file_wait_def waitpid_def execute_file_parent_def)
qed

section \<open>The built-in \<^verbatim>\<open>cd\<close>\<close>

text \<open>
  The branch \<^verbatim>\<open>cd\<close> of \<^verbatim>\<open>input_start\<close> calls \<^verbatim>\<open>clear_args()\<close> before \<^verbatim>\<open>change_cwd()\<close>:
  whenever the argument count lets \<^verbatim>\<open>change_cwd\<close> go on to \<^verbatim>\<open>chdir(args[1])\<close>, the path is
  read from freed memory, whatever \<^verbatim>\<open>chdir\<close> would do with it.
\<close>

lemma input_cd_use_after_free:
  "argsc g - 1 = 2 \<Longrightarrow> clear_args g = Inr g1 \<Longrightarrow> args g \<noteq> Null \<Longrightarrow> input_cd chdir g cwd = Inl UseAfterFree"
  by (auto simp: input_cd_def clear_args_def change_cwd_def arg_string_def split: ptr.splits if_splits)

text \<open>
  With any other argument count \<^verbatim>\<open>change_cwd\<close> does not touch the arguments: the branch
  reports \<^verbatim>\<open>cd: one argument required\<close>, leaves the working directory as it is, prints
  the prompt and reads on. The line \<^verbatim>\<open>cd\<close> is such a line.
\<close>

lemma input_cd_argument_count:
  assumes "argsc g - 1 \<noteq> 2" and "clear_args g = Inr g1"
  shows "input_cd chdir g cwd
           = Inr (\<lparr>goes_on = True, stdout = ''$ '', globals = g1\<rparr>,
                  ''cd: one argument required'' @ newline, cwd)"
proof -
  from assms(2) have "argsc g1 = argsc g"
    by (auto simp: clear_args_def split: ptr.splits if_splits)
  with assms show ?thesis
    by (simp add: input_cd_def change_cwd_def after_change_cwd_def)
qed

lemma cd_without_path:
  "\<exists>g g1. create_args 2 [] (''cd'' @ [NUL]) shell_init = Inr g \<and> clear_args g = Inr g1 \<and>
     input_cd chdir g cwd
       = Inr (\<lparr>goes_on = True, stdout = ''$ '', globals = g1\<rparr>,
              ''cd: one argument required'' @ newline, cwd)"
proof -
  let ?g = "shell_init\<lparr>argsc := 2, args := Ptr [Ptr (''cd'' @ replicate 254 NUL), Null]\<rparr>"
  have p: "create_args 2 [] (''cd'' @ [NUL]) shell_init = Inr ?g"
    by (simp add: create_args_eval shell_init_def Cons_replicate cong: then_do_weak_cong)
  have c: "clear_args ?g = Inr (shell_init\<lparr>argsc := 2, args := Dangling\<rparr>)"
    by (simp add: clear_args_def shell_init_def MAXARG_def)
  have "argsc ?g - 1 \<noteq> 2" by simp
  from input_cd_argument_count [OF this c] p c show ?thesis by blast
qed

text \<open>
  The line \<^verbatim>\<open>cd\<close> followed by a blank has no path either, but \<^verbatim>\<open>create_args\<close> counts the
  argument that the blank announces: \<^verbatim>\<open>argsc - 1\<close> is 2, and the branch reads \<^verbatim>\<open>args[1]\<close>
  after the arguments have been freed.
\<close>

lemma cd_trailing_blank:
  "create_args 3 [] (''cd '' @ [NUL]) shell_init
     = Inr (shell_init\<lparr>argsc := 3, args := Ptr [Ptr (''cd'' @ replicate 254 NUL), Null, Null]\<rparr>) \<and>
   input_cd chdir (shell_init\<lparr>argsc := 3, args := Ptr [Ptr (''cd'' @ replicate 254 NUL), Null, Null]\<rparr>) cwd
     = Inl UseAfterFree"
proof -
  let ?g = "shell_init\<lparr>argsc := 3, args := Ptr [Ptr (''cd'' @ replicate 254 NUL), Null, Null]\<rparr>"
  have "create_args 3 [] (''cd '' @ [NUL]) shell_init = Inr ?g"
    by (simp add: create_args_eval shell_init_def Cons_replicate cong: then_do_weak_cong)
  moreover have "clear_args ?g = Inr (shell_init\<lparr>argsc := 3, args := Dangling\<rparr>)"
    by (simp add: clear_args_def shell_init_def MAXARG_def)
  then have "input_cd chdir ?g cwd = Inl UseAfterFree"
    by (simp add: input_cd_def change_cwd_def arg_string_def)
  ultimately show ?thesis by simp
qed

text \<open>
  \<^verbatim>\<open>change_cwd\<close> taken by itself, on arguments that are still allocated: \<^verbatim>\<open>ENOENT\<close> and
  \<^verbatim>\<open>ENOTDIR\<close> are reported as \<^verbatim>\<open>No such directory\<close> with the value 1; any other failure
  of \<^verbatim>\<open>chdir\<close> gives the value \<^verbatim>\<open>-1\<close> and no message, and on \<^verbatim>\<open>-1\<close> the input thread sets
  the exit flag and ends.
\<close>

lemma change_cwd_live_arguments:
  assumes "argsc g - 1 = 2" and "arg_string g 1 = Inr path" and "chdir cwd path = Inl e"
  shows "change_cwd chdir g cwd
        = (if e = ENOENT \<or> e = ENOTDIR
           then Inr (1, ''cd: '' @ path @ '': No such directory'' @ newline, cwd)
           else Inr (- 1, [], cwd))"
  using assms by (simp add: change_cwd_def)

lemma after_change_cwd_exit:
  "goes_on (after_change_cwd 1 g)" "\<not> goes_on (after_change_cwd (- 1) g)"
  "exit_flag (globals (after_change_cwd (- 1) g))"
  by (simp_all add: after_change_cwd_def set_exit_flag_def monitor_args_execute_def)

text \<open>
  Claim C9 (the built-in \<^verbatim>\<open>cd\<close>: a nonexistent directory is reported as
  \<^verbatim>\<open>No such directory\<close> and the shell goes on), evaluated on the code for the line
  \<^verbatim>\<open>cd /nowhere\<close>, with \<^verbatim>\<open>chdir\<close> failing with \<^verbatim>\<open>ENOENT\<close>. \<^verbatim>\<open>create_args\<close> yields the two
  arguments and \<^verbatim>\<open>input_start\<close> takes the branch \<^verbatim>\<open>cd\<close>. On these arguments \<^verbatim>\<open>change_cwd\<close>
  would report \<^verbatim>\<open>cd: /nowhere: No such directory\<close> and return 1; but the branch frees
  them first, \<^verbatim>\<open>change_cwd\<close> reads \<^verbatim>\<open>args[1]\<close> from freed memory, and the round has no
  defined outcome.
\<close>

theorem cd_nonexistent_directory:
  "create_args 3 [] (''cd /nowhere'' @ [NUL]) shell_init
     = Inr (shell_init\<lparr>argsc := 3,
              args := Ptr [Ptr (''cd'' @ replicate 254 NUL), Ptr (''/nowhere'' @ replicate 248 NUL), Null]\<rparr>) \<and>
   input_branch (shell_init\<lparr>argsc := 3,
              args := Ptr [Ptr (''cd'' @ replicate 254 NUL), Ptr (''/nowhere'' @ replicate 248 NUL), Null]\<rparr>)
     = Inr BuiltinCd \<and>
   change_cwd (\<lambda>cwd path. Inl ENOENT)
     (shell_init\<lparr>argsc := 3,
              args := Ptr [Ptr (''cd'' @ replicate 254 NUL), Ptr (''/nowhere'' @ replicate 248 NUL), Null]\<rparr>)
     ''/home'' = Inr (1, ''cd: /nowhere: No such directory'' @ newline, ''/home'') \<and>
   clear_args (shell_init\<lparr>argsc := 3,
              args := Ptr [Ptr (''cd'' @ replicate 254 NUL), Ptr (''/nowhere'' @ replicate 248 NUL), Null]\<rparr>)
     = Inr (shell_init\<lparr>argsc := 3, args := Dangling\<rparr>) \<and>
   change_cwd (\<lambda>cwd path. Inl ENOENT) (shell_init\<lparr>argsc := 3, args := Dangling\<rparr>) ''/home''
     = Inl UseAfterFree \<and>
   input_cd (\<lambda>cwd path. Inl ENOENT)
     (shell_init\<lparr>argsc := 3,
              args := Ptr [Ptr (''cd'' @ replicate 254 NUL), Ptr (''/nowhere'' @ replicate 248 NUL), Null]\<rparr>)
     ''/home'' = Inl UseAfterFree"
proof -
  let ?g = "shell_init\<lparr>argsc := 3,
              args := Ptr [Ptr (''cd'' @ replicate 254 NUL), Ptr (''/nowhere'' @ replicate 248 NUL), Null]\<rparr>"
  have parse: "create_args 3 [] (''cd /nowhere'' @ [NUL]) shell_init = Inr ?g"
    by (simp add: create_args_eval shell_init_def Cons_replicate cong: then_do_weak_cong)
  have br: "input_branch ?g = Inr BuiltinCd"
    by (simp add: input_branch_def arg_string_def cstr_def NUL_def)
  have live: "change_cwd (\<lambda>cwd path. Inl ENOENT) ?g ''/home''
                = Inr (1, ''cd: /nowhere: No such directory'' @ newline, ''/home'')"
    by (simp add: change_cwd_def arg_string_def cstr_def NUL_def)
  have clr: "clear_args ?g = Inr (shell_init\<lparr>argsc := 3, args := Dangling\<rparr>)"
    by (simp add: clear_args_def shell_init_def MAXARG_def)
  have freed: "change_cwd (\<lambda>cwd path. Inl ENOENT) (shell_init\<lparr>argsc := 3, args := Dangling\<rparr>) ''/home''
                 = Inl UseAfterFree"
    by (simp add: change_cwd_def arg_string_def)
  have cd: "input_cd (\<lambda>cwd path. Inl ENOENT) ?g ''/home'' = Inl UseAfterFree"
    unfolding input_cd_def clr by (simp add: freed)
  from parse br live clr freed cd show ?thesis by simp
qed

section \<open>The handoff between the input and exec threads\<close>

lemma handoff_inv_start: "handoff_inv cmds (start cmds)"
  by (simp add: handoff_inv_def start_def)

lemma handoff_inv_line:
  assumes "handoff_inv cmds s" and "line_step s = Some s'"
  shows "handoff_inv cmds s'"
  using assms
  unfolding handoff_inv_def line_step_def set_exit_flag_def monitor_args_execute_def
  by (cases "line_at s"; cases "exec_at s")
     (auto split: list.splits if_splits exec_pc.splits)

lemma handoff_inv_exec:
  assumes "handoff_inv cmds s" and "exec_step ok s = Some s'"
  shows "handoff_inv cmds s'"
  using assms
  unfolding handoff_inv_def exec_step_def set_exit_flag_def monitor_args_executed_def
  by (cases "line_at s"; cases "exec_at s")
     (auto split: list.splits if_splits exec_pc.splits)

lemma handoff_inv_run:
  "handoff_inv cmds s \<Longrightarrow> run sched s = Some s' \<Longrightarrow> handoff_inv cmds s'"
proof (induction sched arbitrary: s)
  case Nil
  then show ?case by simp
next
  case (Cons a sched)
  from Cons.prems(2) obtain s1 where s1: "step a s = Some s1" and rest: "run sched s1 = Some s'"
    by (auto split: option.splits)
  from Cons.prems(1) s1 have "handoff_inv cmds s1"
    by (cases a) (auto intro: handoff_inv_line handoff_inv_exec)
  from this rest show ?case by (rule Cons.IH)
qed

lemma handoff_inv_prefix:
  assumes "handoff_inv cmds s"
  shows "consumed s = map Ptr (take (length (consumed s)) cmds)"
proof -
  from assms have "\<exists>fin. (\<exists>rest. cmds = fin @ rest \<and> consumed s = map Ptr fin) \<or>
                      (\<exists>v rest. cmds = fin @ v # rest \<and> consumed s = map Ptr fin @ [Ptr v])"
    unfolding handoff_inv_def
    by (cases "line_at s"; cases "exec_at s") (auto split: if_splits)
  then obtain fin where
    "(\<exists>rest. cmds = fin @ rest \<and> consumed s = map Ptr fin) \<or>
     (\<exists>v rest. cmds = fin @ v # rest \<and> consumed s = map Ptr fin @ [Ptr v])" ..
  then show ?thesis
  proof
    assume "\<exists>rest. cmds = fin @ rest \<and> consumed s = map Ptr fin"
    then show ?thesis by auto
  next
    assume "\<exists>v rest. cmds = fin @ v # rest \<and> consumed s = map Ptr fin @ [Ptr v]"
    then show ?thesis by auto
  qed
qed

text \<open>
  Claim C1 (each command consumed exactly once, in order, on live storage). For every
  list of commands and every schedule of the two threads, in the state reached:
  what \<^verbatim>\<open>execute_file\<close> has found in \<^verbatim>\<open>args\<close> is, in order, a prefix of the commands
  handed over, each a live vector; once the input thread is past
  \<^verbatim>\<open>monitor_args_wait_finished\<close> it is all of the commands read so far; while the exec
  thread executes, the input thread waits and \<^verbatim>\<open>args\<close> is live; when the input thread
  is about to fill or free \<^verbatim>\<open>args\<close>, \<^verbatim>\<open>exec_args\<close> is 0 and the exec thread waits or has
  returned, and what is freed is the command consumed last; the threads are both
  blocked only when both have returned; and after the regular end of the input every
  command has been consumed.
\<close>

theorem handoff_in_order:
  assumes "run sched (start cmds) = Some s"
  shows "consumed s = map Ptr (take (length (consumed s)) cmds) \<and>
         (line_at s \<noteq> LPublish \<and> line_at s \<noteq> LWaitFinished \<longrightarrow>
            consumed s = map Ptr (take (length cmds - length (input s)) cmds)) \<and>
         (exec_at s = EExecute \<longrightarrow>
            line_at s = LWaitFinished \<and> exec_args s \<and> (\<exists>v. args s = Ptr v)) \<and>
         (line_at s = LRead \<or> line_at s = LClear \<longrightarrow>
            \<not> exec_args s \<and> (exec_at s = EWaitExecutable \<or> exec_at s = EReturned)) \<and>
         (line_at s = LClear \<longrightarrow> consumed s \<noteq> [] \<and> args s = last (consumed s)) \<and>
         (step Line s = None \<and> step (Exec True) s = None \<longrightarrow>
            line_at s = LReturned \<and> exec_at s = EReturned) \<and>
         (line_at s = LReturned \<and> exec_args s \<longrightarrow> consumed s = map Ptr cmds)"
proof -
  have inv: "handoff_inv cmds s"
    using handoff_inv_start assms by (rule handoff_inv_run)
  have p1: "consumed s = map Ptr (take (length (consumed s)) cmds)"
    using inv by (rule handoff_inv_prefix)
  have p2: "consumed s = map Ptr (take (length cmds - length (input s)) cmds)"
    if "line_at s \<noteq> LPublish" "line_at s \<noteq> LWaitFinished"
    using inv that unfolding handoff_inv_def
    by (cases "line_at s") (auto split: if_splits)
  have p3: "line_at s = LWaitFinished \<and> exec_args s \<and> (\<exists>v. args s = Ptr v)"
    if "exec_at s = EExecute"
    using inv that unfolding handoff_inv_def
    by (cases "line_at s") (auto split: if_splits)
  have p4: "\<not> exec_args s \<and> (exec_at s = EWaitExecutable \<or> exec_at s = EReturned)"
    if "line_at s = LRead \<or> line_at s = LClear"
    using inv that unfolding handoff_inv_def
    by (auto split: if_splits)
  have p5: "consumed s \<noteq> [] \<and> args s = last (consumed s)" if "line_at s = LClear"
    using inv that unfolding handoff_inv_def
    by (auto simp: last_map)
  have p6: "line_at s = LReturned \<and> exec_at s = EReturned"
    if "step Line s = None \<and> step (Exec True) s = None"
    using inv that unfolding handoff_inv_def
    by (cases "line_at s"; cases "exec_at s")
       (auto simp: line_step_def exec_step_def split: if_splits list.splits)
  have p7: "consumed s = map Ptr cmds" if "line_at s = LReturned \<and> exec_args s"
    using inv that unfolding handoff_inv_def
    by auto
  from p1 p2 p3 p4 p5 p6 p7 show ?thesis by blast
qed

theorem handoff_in_order_witness:
  "\<exists>s. run (round_of @ round_of @ [Line, Line, Line, Exec True, Exec True])
          (start [[Ptr ''ls'', Null], [Ptr ''pwd'', Null]]) = Some s \<and>
        consumed s = [Ptr [Ptr ''ls'', Null], Ptr [Ptr ''pwd'', Null]] \<and>
        line_at s = LReturned \<and> exec_at s = EReturned"
proof -
  let ?sched = "round_of @ round_of @ [Line, Line, Line, Exec True, Exec True]"
  let ?cmds = "[[Ptr ''ls'', Null], [Ptr ''pwd'', Null]]"
  obtain s where s: "run ?sched (start ?cmds) = Some s" "line_at s = LReturned" "exec_args s"
    "exec_at s = EReturned"
    by (simp add: round_of_def start_def line_step_def exec_step_def set_exit_flag_def
          monitor_args_execute_def monitor_args_executed_def)
  from handoff_in_order [OF s(1)] s(2,3) have "consumed s = map Ptr ?cmds" by blast
  with s show ?thesis by simp
qed

end
